theory Spec2Isabelle
  imports Main "HOL-Library.Word"
begin

section \<open>Shared types\<close>

type_synonym u8 = "8 word"
type_synonym u16 = "16 word"
type_synonym u64 = "64 word"

text \<open>The error codes thrown by the modelled functions.  The reader file spells them
  \<^verbatim>\<open>E57_ERROR_...\<close>, SourceDestBuffer.cpp spells them \<^verbatim>\<open>Error...\<close>; both spellings are kept
  as they occur in the source.\<close>

datatype ErrorCode =
    E57_ERROR_BAD_API_ARGUMENT
  | E57_ERROR_INTERNAL
  | E57_ERROR_BUFFERS_NOT_COMPATIBLE
  | E57_ERROR_BAD_CV_PACKET
  | E57_ERROR_NOT_IMPLEMENTED
  | E57_ERROR_READER_NOT_OPEN
  | E57_ERROR_IMAGEFILE_NOT_OPEN
  | ErrorInvarianceViolation
  | ErrorBadAPIArgument
  | ErrorBadPathName
  | ErrorBadBuffer

section \<open>SourceDestBuffer (SourceDestBuffer.cpp)\<close>

text \<open>The enum MemoryRepresentation, as the switch of \<^verbatim>\<open>checkInvariant\<close> enumerates it.
  \<open>UnknownRepresentation\<close> stands for an enum object holding a value outside the
  enumerators, which is what the \<^verbatim>\<open>default:\<close> branch of the switch handles.\<close>

datatype MemoryRepresentation =
    Int8 | UInt8 | Int16 | UInt16 | Int32 | UInt32 | Int64 | Bool | Real32 | Real64 | UString
  | UnknownRepresentation

text \<open>The state behind a SourceDestBuffer handle (\<^verbatim>\<open>impl_\<close>): the attributes its getters
  return, the buffer pointer \<open>base\<close> and the cursor \<open>nextIndex\<close>.\<close>

record SourceDestBufferImpl =
  pathName :: string
  memoryRepresentation :: MemoryRepresentation
  capacity :: nat
  doConversion :: bool
  doScaling :: bool
  stride :: nat
  base :: nat
  nextIndex :: nat

text \<open>The switch of \<^verbatim>\<open>SourceDestBuffer::checkInvariant\<close>: the value assigned to
  \<^verbatim>\<open>min_stride\<close>, or \<open>None\<close> for the throwing \<^verbatim>\<open>default:\<close> branch.  \<open>sizeof_ustring\<close> is
  \<^verbatim>\<open>sizeof( ustring )\<close>, which depends on the platform and is a parameter.\<close>

fun min_stride :: "nat \<Rightarrow> MemoryRepresentation \<Rightarrow> nat option" where
  "min_stride sizeof_ustring Int8 = Some 1"
| "min_stride sizeof_ustring UInt8 = Some 1"
| "min_stride sizeof_ustring Int16 = Some 2"
| "min_stride sizeof_ustring UInt16 = Some 2"
| "min_stride sizeof_ustring Int32 = Some 4"
| "min_stride sizeof_ustring UInt32 = Some 4"
| "min_stride sizeof_ustring Int64 = Some 8"
| "min_stride sizeof_ustring Bool = Some 1"
| "min_stride sizeof_ustring Real32 = Some 4"
| "min_stride sizeof_ustring Real64 = Some 8"
| "min_stride sizeof_ustring UString = Some sizeof_ustring"
| "min_stride sizeof_ustring UnknownRepresentation = None"

definition checkInvariant :: "nat \<Rightarrow> SourceDestBufferImpl \<Rightarrow> ErrorCode + unit" where
  "checkInvariant sizeof_ustring b =
     (case min_stride sizeof_ustring (memoryRepresentation b) of
        None \<Rightarrow> Inl ErrorInvarianceViolation
      | Some m \<Rightarrow> if stride b < m then Inl ErrorInvarianceViolation else Inr ())"

text \<open>Modelled from the spec: the SourceDestBuffer constructors forward to
  \<^verbatim>\<open>SourceDestBufferImpl\<close> and \<^verbatim>\<open>setTypeInfo\<close>, which are not among the sources.  The spec
  (4.4, 6, 7) says that construction validates that the path is syntactically legal, that
  the capacity is positive and that the stride is at least the element size, that a stride
  of 0 means the element size, and that a bad argument is a BadApiArgument error.  The
  check of the path is the parameter \<open>pathOk\<close>.\<close>

definition SourceDestBuffer_new ::
  "nat \<Rightarrow> (string \<Rightarrow> bool) \<Rightarrow> string \<Rightarrow> MemoryRepresentation \<Rightarrow> nat \<Rightarrow> nat \<Rightarrow> bool \<Rightarrow> bool \<Rightarrow> nat
     \<Rightarrow> ErrorCode + SourceDestBufferImpl" where
  "SourceDestBuffer_new sizeof_ustring pathOk path rep b cap doConv doScal strd =
     (if \<not> pathOk path then Inl ErrorBadPathName
      else case min_stride sizeof_ustring rep of
        None \<Rightarrow> Inl ErrorBadAPIArgument
      | Some m \<Rightarrow>
          if cap = 0 then Inl ErrorBadAPIArgument
          else if strd \<noteq> 0 \<and> strd < m then Inl ErrorBadAPIArgument
          else Inr \<lparr> pathName = path, memoryRepresentation = rep, capacity = cap,
                     doConversion = doConv, doScaling = doScal,
                     stride = (if strd = 0 then m else strd), base = b, nextIndex = 0 \<rparr>)"


text \<open>The element sizes as the specification lists them: 1 for Int8, UInt8 and Bool, 2 for
  Int16 and UInt16, 4 for Int32, UInt32 and Real32, 8 for Int64 and Real64, and
  \<^verbatim>\<open>sizeof( ustring )\<close> for UString; an unknown representation has none.\<close>

definition spec_representation_size :: "nat \<Rightarrow> MemoryRepresentation \<Rightarrow> nat option" where
  "spec_representation_size sizeof_ustring r =
     (if r \<in> {Int8, UInt8, Bool} then Some 1
      else if r \<in> {Int16, UInt16} then Some 2
      else if r \<in> {Int32, UInt32, Real32} then Some 4
      else if r \<in> {Int64, Real64} then Some 8
      else if r = UString then Some sizeof_ustring
      else None)"

section \<open>Packets and the packet cache (used by the reader)\<close>

text \<open>Modelled from the spec: Packet.h is not among the sources.  The reader reads the two
  header fields \<^verbatim>\<open>header.packetType\<close> and \<^verbatim>\<open>header.packetLogicalLengthMinus1\<close> and calls
  \<^verbatim>\<open>getBytestream\<close> and \<^verbatim>\<open>getBytestreamBufferLength\<close>.  The spec (3, 6) gives the packet kinds
  Data, Index and Ignored, the 16-bit field holding the logical length minus one, and per
  stream one payload, indexed by bytestream number.\<close>

datatype PacketType = INDEX_PACKET | DATA_PACKET | EMPTY_PACKET

record PacketHeader =
  packetType :: PacketType
  packetLogicalLengthMinus1 :: u16

record DataPacket =
  header :: PacketHeader
  bytestreams :: "u8 list list"

text \<open>Modelled from the spec: the payload of one bytestream of a data packet; asking for a
  bytestream the packet does not have is an internal error.\<close>

definition getBytestream :: "DataPacket \<Rightarrow> nat \<Rightarrow> ErrorCode + u8 list" where
  "getBytestream dpkt n =
     (if n < length (bytestreams dpkt) then Inr (bytestreams dpkt ! n) else Inl E57_ERROR_INTERNAL)"

text \<open>Modelled from the spec: the length of that payload, which the packet stores in its
  array of per-stream buffer lengths.\<close>

definition getBytestreamBufferLength :: "DataPacket \<Rightarrow> nat \<Rightarrow> ErrorCode + nat" where
  "getBytestreamBufferLength dpkt n =
     (case getBytestream dpkt n of Inl e \<Rightarrow> Inl e | Inr bs \<Rightarrow> Inr (length bs))"

text \<open>\<^verbatim>\<open>E57_UINT64_MAX\<close>, the sentinel of the reader.\<close>

definition E57_UINT64_MAX :: u64 where
  "E57_UINT64_MAX = - 1"

text \<open>The step \<^verbatim>\<open>offset + header.packetLogicalLengthMinus1 + 1\<close> in 64-bit unsigned
  arithmetic (it wraps).\<close>

definition offsetAfter :: "u64 \<Rightarrow> DataPacket \<Rightarrow> u64" where
  "offsetAfter off p = off + ucast (packetLogicalLengthMinus1 (header p)) + 1"

section \<open>The reader (CompressedVectorReaderImpl)\<close>

text \<open>A decode channel.  \<open>dbuf\<close> is the handle of the channel's SourceDestBuffer: the address
  of the shared \<^verbatim>\<open>SourceDestBufferImpl\<close> in the store of the state below.  \<open>'d\<close> is the state of
  the channel's decoder.\<close>

record 'd DecodeChannel =
  dbuf :: nat
  decoder :: 'd
  bytestreamNumber :: nat
  maxRecordCount :: nat
  currentPacketLogicalOffset :: u64
  currentBytestreamBufferIndex :: nat
  currentBytestreamBufferLength :: nat
  inputFinished :: bool

record CompressedVectorSectionHeader =
  sectionLogicalLength :: u64
  dataPhysicalOffset :: u64

text \<open>The collaborators of the reader whose code is not among the sources, taken as
  parameters: the packet cache (\<open>lock\<close> gives the packet at a logical offset, or throws), the
  decoder (\<open>inputProcess\<close> is given the decoder, its destination buffer and the bytes, \<open>None\<close>
  for the null pointer, and gives the number of bytes consumed with the new decoder and
  buffer, or throws), the two predicates of DecodeChannel, the prototype (\<open>checkBuffers\<close>,
  \<open>findTerminalPosition\<close> after \<^verbatim>\<open>get\<close>), the decoder factory, and the compressed vector node and
  file (\<open>childCount\<close>, \<open>getBinarySectionLogicalStart\<close>, the read of the section header,
  \<open>physicalToLogical\<close>).\<close>

record 'd Env =
  lock :: "u64 \<Rightarrow> ErrorCode + DataPacket"
  inputProcess :: "'d \<Rightarrow> SourceDestBufferImpl \<Rightarrow> u8 list option
                     \<Rightarrow> ErrorCode + (nat \<times> 'd \<times> SourceDestBufferImpl)"
  isOutputBlocked :: "'d DecodeChannel \<Rightarrow> SourceDestBufferImpl \<Rightarrow> bool"
  isInputBlocked :: "'d DecodeChannel \<Rightarrow> SourceDestBufferImpl \<Rightarrow> bool"
  checkBuffers :: "SourceDestBufferImpl list \<Rightarrow> bool \<Rightarrow> ErrorCode option"
  findTerminalPosition :: "string \<Rightarrow> ErrorCode + u64 option"
  DecoderFactory :: "nat \<Rightarrow> nat \<Rightarrow> ErrorCode + 'd"
  childCount :: nat
  getBinarySectionLogicalStart :: u64
  readSectionHeader :: "u64 \<Rightarrow> ErrorCode + CompressedVectorSectionHeader"
  physicalToLogical :: "u64 \<Rightarrow> u64"

text \<open>The state: the reader object with the objects it shares with its caller, which are
  the image file of the compressed vector (\<open>imfIsOpen\<close>, \<open>imfReaderCount\<close>) and the store of
  the SourceDestBufferImpl objects (\<open>sdbHeap\<close>, from handle to object).  \<open>dbufs_'\<close> is the list
  of handles; \<open>cache_'\<close> tells whether the cache pointer is set.  A member \<^verbatim>\<open>x_\<close> of the
  class is written \<open>x_'\<close>, since a name cannot end with an underscore here.\<close>

record 'd ReaderState =
  imfIsOpen :: bool
  imfReaderCount :: int
  sdbHeap :: "nat \<Rightarrow> SourceDestBufferImpl"
  isOpen_' :: bool
  dbufs_' :: "nat list"
  channels_' :: "'d DecodeChannel list"
  recordCount_' :: nat
  maxRecordCount_' :: nat
  cache_' :: bool
  sectionEndLogicalOffset_' :: u64

text \<open>A function that may throw returns the exception, if any, with the state at that
  moment: what it changed before throwing stays changed, as in C++.  A \<^verbatim>\<open>for\<close> loop whose
  body may throw is \<open>forM\<close>: it runs the body on the elements in order and stops at the first
  exception.\<close>

fun forM :: "'i list \<Rightarrow> ('i \<Rightarrow> 's \<Rightarrow> ErrorCode option \<times> 's) \<Rightarrow> 's \<Rightarrow> ErrorCode option \<times> 's" where
  "forM [] body s = (None, s)"
| "forM (i # is) body s =
     (case body i s of
        (Some e, s') \<Rightarrow> (Some e, s')
      | (None, s') \<Rightarrow> forM is body s')"

subsection \<open>findNextDataPacket\<close>

text \<open>The \<^verbatim>\<open>while\<close> loop of \<^verbatim>\<open>findNextDataPacket\<close>.  The result is \<open>None\<close> when the loop runs
  forever, \<open>Some (Inl e)\<close> when the cache throws \<open>e\<close>, and \<open>Some (Inr off)\<close> when the function
  returns \<open>off\<close>.\<close>

partial_function (option) findNextDataPacket ::
  "(u64 \<Rightarrow> ErrorCode + DataPacket) \<Rightarrow> u64 \<Rightarrow> u64 \<Rightarrow> (ErrorCode + u64) option" where
  "findNextDataPacket lck sectionEnd nextPacketLogicalOffset =
     (if nextPacketLogicalOffset < sectionEnd then
        (case lck nextPacketLogicalOffset of
           Inl e \<Rightarrow> Some (Inl e)
         | Inr dpkt \<Rightarrow>
             if packetType (header dpkt) = DATA_PACKET then Some (Inr nextPacketLogicalOffset)
             else findNextDataPacket lck sectionEnd (offsetAfter nextPacketLogicalOffset dpkt))
      else Some (Inr E57_UINT64_MAX))"

declare findNextDataPacket.simps [code]

text \<open>The scan as the specification words it: \<open>skipsTo lck sectionEnd a b\<close> holds when \<open>b\<close> is
  reached from \<open>a\<close> by stepping over packets that lie before the section end and are not data
  packets, each step advancing by the header length of the packet stepped over.\<close>

inductive skipsTo :: "(u64 \<Rightarrow> ErrorCode + DataPacket) \<Rightarrow> u64 \<Rightarrow> u64 \<Rightarrow> u64 \<Rightarrow> bool"
  for lck :: "u64 \<Rightarrow> ErrorCode + DataPacket" and sectionEnd :: u64 where
  here: "skipsTo lck sectionEnd a a"
| skip: "a < sectionEnd \<Longrightarrow> lck a = Inr p \<Longrightarrow> packetType (header p) \<noteq> DATA_PACKET \<Longrightarrow>
         skipsTo lck sectionEnd (offsetAfter a p) b \<Longrightarrow> skipsTo lck sectionEnd a b"

text \<open>The cache reads its packets from a file, whose length is a 64-bit number: a packet
  that it serves ends within the file, so no packet that it serves extends to or past offset
  \<open>2 ^ 64\<close>, and stepping over a packet does not wrap around.\<close>

definition packetsDoNotWrap :: "(u64 \<Rightarrow> ErrorCode + DataPacket) \<Rightarrow> bool" where
  "packetsDoNotWrap lck \<longleftrightarrow>
     (\<forall>off p. lck off = Inr p \<longrightarrow>
        unat off + unat (packetLogicalLengthMinus1 (header p)) + 1 < 2 ^ 64)"

text \<open>A cache over a file of the given logical length throws at every offset at or beyond
  that length.\<close>

definition fileBacked :: "nat \<Rightarrow> (u64 \<Rightarrow> ErrorCode + DataPacket) \<Rightarrow> bool" where
  "fileBacked fileLength lck \<longleftrightarrow>
     (\<forall>off. fileLength \<le> unat off \<longrightarrow> (\<exists>e. lck off = Inl e))"

text \<open>What the scan is specified to return from \<open>a\<close>: with \<open>b\<close> the place where the stepping
  over non-data packets stops, the offset \<open>b\<close> of the first data packet if \<open>b\<close> lies before the
  section end (or the exception of the cache there), and the failure sentinel if \<open>b\<close> has
  reached or passed the section end.\<close>

definition scanResult ::
  "(u64 \<Rightarrow> ErrorCode + DataPacket) \<Rightarrow> u64 \<Rightarrow> u64 \<Rightarrow> ErrorCode + u64 \<Rightarrow> bool" where
  "scanResult lck sectionEnd a r \<longleftrightarrow>
     (\<exists>b. skipsTo lck sectionEnd a b \<and>
        (if b < sectionEnd then
           (case lck b of
              Inl e \<Rightarrow> r = Inl e
            | Inr p \<Rightarrow> packetType (header p) = DATA_PACKET \<and> r = Inr b)
         else r = Inr E57_UINT64_MAX))"

text \<open>A cache with an index packet of 16 bytes at offset 0, a data packet at offset 16 and
  nothing else.\<close>

definition dataPacket16 :: DataPacket where
  "dataPacket16 =
     \<lparr> header = \<lparr> packetType = DATA_PACKET, packetLogicalLengthMinus1 = 15 \<rparr>,
       bytestreams = [[1, 2, 3]] \<rparr>"

definition indexPacket16 :: DataPacket where
  "indexPacket16 =
     \<lparr> header = \<lparr> packetType = INDEX_PACKET, packetLogicalLengthMinus1 = 15 \<rparr>,
       bytestreams = [] \<rparr>"

definition smallCache :: "u64 \<Rightarrow> ErrorCode + DataPacket" where
  "smallCache off =
     (if off = 0 then Inr indexPacket16
      else if off = 16 then Inr dataPacket16
      else Inl E57_ERROR_BAD_CV_PACKET)"

subsection \<open>Opening checks, close, destructor, seek\<close>

text \<open>\<^verbatim>\<open>checkImageFileOpen\<close>: the body is the comment \<^verbatim>\<open>// unimplemented...\<close>, so it returns
  normally whatever the state of the image file.\<close>

definition checkImageFileOpen :: "'d ReaderState \<Rightarrow> ErrorCode option" where
  "checkImageFileOpen s = None"

definition checkReaderOpen :: "'d ReaderState \<Rightarrow> ErrorCode option" where
  "checkReaderOpen s = (if \<not> isOpen_' s then Some E57_ERROR_READER_NOT_OPEN else None)"

text \<open>Modelled from the spec: \<^verbatim>\<open>ImageFileImpl::incrReaderCount\<close> and \<^verbatim>\<open>decrReaderCount\<close> are
  not among the sources; the spec (4.5, 6) has them increment and decrement the reader count
  of the file.\<close>

definition incrReaderCount :: "'d ReaderState \<Rightarrow> 'd ReaderState" where
  "incrReaderCount s = s\<lparr> imfReaderCount := imfReaderCount s + 1 \<rparr>"

definition decrReaderCount :: "'d ReaderState \<Rightarrow> 'd ReaderState" where
  "decrReaderCount s = s\<lparr> imfReaderCount := imfReaderCount s - 1 \<rparr>"

definition close :: "'d ReaderState \<Rightarrow> ErrorCode option \<times> 'd ReaderState" where
  "close s =
     (let s1 = decrReaderCount s in
      case checkImageFileOpen s1 of
        Some e \<Rightarrow> (Some e, s1)
      | None \<Rightarrow>
          if \<not> isOpen_' s1 then (None, s1)
          else (None, s1\<lparr> channels_' := [], cache_' := False, isOpen_' := False \<rparr>))"

text \<open>The destructor closes the reader if it is open and swallows what \<^verbatim>\<open>close\<close> throws.\<close>

definition destructor :: "'d ReaderState \<Rightarrow> 'd ReaderState" where
  "destructor s = (if isOpen_' s then snd (close s) else s)"

definition seek :: "u64 \<Rightarrow> 'd ReaderState \<Rightarrow> ErrorCode option \<times> 'd ReaderState" where
  "seek recordNumber s =
     (case checkImageFileOpen s of
        Some e \<Rightarrow> (Some e, s)
      | None \<Rightarrow> (Some E57_ERROR_NOT_IMPLEMENTED, s))"

text \<open>\<open>close\<close> called \<open>n\<close> times in a row (exceptions, of which there are none, ignored).\<close>

fun closeTimes :: "nat \<Rightarrow> 'd ReaderState \<Rightarrow> 'd ReaderState" where
  "closeTimes 0 s = s"
| "closeTimes (Suc n) s = closeTimes n (snd (close s))"

subsection \<open>setBuffers\<close>

text \<open>Modelled from the spec: \<^verbatim>\<open>SourceDestBufferImpl::checkCompatible\<close> is not among the
  sources.  The spec (4.5, 7) requires path, representation, capacity and stride to match,
  lets the buffer pointer change, and names the error BuffersNotCompatible.\<close>

definition checkCompatible :: "SourceDestBufferImpl \<Rightarrow> SourceDestBufferImpl \<Rightarrow> ErrorCode option" where
  "checkCompatible oldBuf newBuf =
     (if pathName oldBuf \<noteq> pathName newBuf then Some E57_ERROR_BUFFERS_NOT_COMPATIBLE
      else if memoryRepresentation oldBuf \<noteq> memoryRepresentation newBuf
        then Some E57_ERROR_BUFFERS_NOT_COMPATIBLE
      else if capacity oldBuf \<noteq> capacity newBuf then Some E57_ERROR_BUFFERS_NOT_COMPATIBLE
      else if stride oldBuf \<noteq> stride newBuf then Some E57_ERROR_BUFFERS_NOT_COMPATIBLE
      else None)"

text \<open>Compatibility of an old and a new buffer as the specification words it: path,
  representation, capacity and stride match; the buffer pointer is not compared.\<close>

definition compatible :: "SourceDestBufferImpl \<Rightarrow> SourceDestBufferImpl \<Rightarrow> bool" where
  "compatible oldBuf newBuf \<longleftrightarrow>
     pathName oldBuf = pathName newBuf
     \<and> memoryRepresentation oldBuf = memoryRepresentation newBuf
     \<and> capacity oldBuf = capacity newBuf
     \<and> stride oldBuf = stride newBuf"

definition setBuffers :: "'d Env \<Rightarrow> nat list \<Rightarrow> 'd ReaderState \<Rightarrow> ErrorCode option \<times> 'd ReaderState" where
  "setBuffers env dbufs s =
     (case checkBuffers env (map (sdbHeap s) dbufs) True of
        Some e \<Rightarrow> (Some e, s)
      | None \<Rightarrow>
          (case (if dbufs_' s \<noteq> [] then
                   (if length (dbufs_' s) \<noteq> length dbufs then Some E57_ERROR_BUFFERS_NOT_COMPATIBLE
                    else fst (forM [0..<length (dbufs_' s)]
                                (\<lambda>i u. (checkCompatible (sdbHeap s (dbufs_' s ! i))
                                                         (sdbHeap s (dbufs ! i)), u)) ()))
                 else None) of
             Some e \<Rightarrow> (Some e, s)
           | None \<Rightarrow> (None, s\<lparr> dbufs_' := dbufs \<rparr>)))"

subsection \<open>The constructor\<close>

text \<open>The loop body that creates the channel of buffer \<open>i\<close>.  The position of the terminal
  is a 64-bit number, which \<^verbatim>\<open>static_cast<unsigned>( bytestreamNumber )\<close> cuts down to its low
  32 bits.  Modelled from the spec: the constructor of DecodeChannel is not among the
  sources; a fresh channel has its three cursors at 0 and \<open>inputFinished\<close> false (the spec, 3,
  has \<open>inputFinished\<close> set only when the section end is reached).\<close>

definition createChannel :: "'d Env \<Rightarrow> nat list \<Rightarrow> nat \<Rightarrow> 'd ReaderState \<Rightarrow> ErrorCode option \<times> 'd ReaderState" where
  "createChannel env dbufs i s =
     (case DecoderFactory env i (dbufs ! i) of
        Inl e \<Rightarrow> (Some e, s)
      | Inr dec \<Rightarrow>
          (case findTerminalPosition env (pathName (sdbHeap s (dbufs ! i))) of
             Inl e \<Rightarrow> (Some e, s)
           | Inr None \<Rightarrow> (Some E57_ERROR_INTERNAL, s)
           | Inr (Some bytestreamNumber') \<Rightarrow>
               (None, s\<lparr> channels_' := channels_' s @
                  [\<lparr> dbuf = dbufs ! i, decoder = dec,
                     bytestreamNumber = unat (ucast bytestreamNumber' :: 32 word),
                     maxRecordCount = childCount env, currentPacketLogicalOffset = 0,
                     currentBytestreamBufferIndex = 0, currentBytestreamBufferLength = 0,
                     inputFinished = False \<rparr>] \<rparr>)))"

definition initChannel :: "DataPacket \<Rightarrow> u64 \<Rightarrow> nat \<Rightarrow> 'd ReaderState \<Rightarrow> ErrorCode option \<times> 'd ReaderState" where
  "initChannel dpkt dataLogicalOffset i s =
     (let channel = (channels_' s ! i)\<lparr> currentPacketLogicalOffset := dataLogicalOffset,
                                        currentBytestreamBufferIndex := 0 \<rparr> in
      case getBytestreamBufferLength dpkt (bytestreamNumber channel) of
        Inl e \<Rightarrow> (Some e, s\<lparr> channels_' := (channels_' s)[i := channel] \<rparr>)
      | Inr n \<Rightarrow>
          (None, s\<lparr> channels_' :=
             (channels_' s)[i := channel\<lparr> currentBytestreamBufferLength := n \<rparr>] \<rparr>))"

text \<open>The constructor, run on the state \<open>s0\<close> of the image file and of the buffers; the
  members of the new reader start closed and empty.\<close>

definition CompressedVectorReaderImpl_new ::
  "'d Env \<Rightarrow> nat list \<Rightarrow> 'd ReaderState \<Rightarrow> ErrorCode option \<times> 'd ReaderState" where
  "CompressedVectorReaderImpl_new env dbufs s0 =
     (let s = s0\<lparr> isOpen_' := False, dbufs_' := [], channels_' := [] \<rparr> in
      case checkImageFileOpen s of
        Some e \<Rightarrow> (Some e, s)
      | None \<Rightarrow>
      if dbufs = [] then (Some E57_ERROR_BAD_API_ARGUMENT, s)
      else case setBuffers env dbufs s of
        (Some e, s1) \<Rightarrow> (Some e, s1)
      | (None, s1) \<Rightarrow>
      (case forM [0..<length (dbufs_' s1)] (createChannel env dbufs) s1 of
        (Some e, s2) \<Rightarrow> (Some e, s2)
      | (None, s2) \<Rightarrow>
      (let s3 = s2\<lparr> recordCount_' := 0, maxRecordCount_' := childCount env, cache_' := True \<rparr>;
           sectionLogicalStart = getBinarySectionLogicalStart env in
       if sectionLogicalStart = 0 then (Some E57_ERROR_INTERNAL, s3)
       else case readSectionHeader env sectionLogicalStart of
         Inl e \<Rightarrow> (Some e, s3)
       | Inr sectionHeader \<Rightarrow>
       (let s4 = s3\<lparr> sectionEndLogicalOffset_' :=
                        sectionLogicalStart + sectionLogicalLength sectionHeader \<rparr>;
            dataLogicalOffset = physicalToLogical env (dataPhysicalOffset sectionHeader) in
        case lock env dataLogicalOffset of
          Inl e \<Rightarrow> (Some e, s4)
        | Inr dpkt \<Rightarrow>
        if packetType (header dpkt) \<noteq> DATA_PACKET then (Some E57_ERROR_BAD_CV_PACKET, s4)
        else case forM [0..<length (channels_' s4)] (initChannel dpkt dataLogicalOffset) s4 of
          (Some e, s5) \<Rightarrow> (Some e, s5)
        | (None, s5) \<Rightarrow> (None, (incrReaderCount s5)\<lparr> isOpen_' := True \<rparr>)))))"

subsection \<open>read\<close>

definition earliestPacketNeededForInput :: "'d Env \<Rightarrow> 'd ReaderState \<Rightarrow> u64" where
  "earliestPacketNeededForInput env s =
     foldl (\<lambda>earliestPacketLogicalOffset chan.
              if \<not> isOutputBlocked env chan (sdbHeap s (dbuf chan)) \<and> \<not> inputFinished chan then
                (if currentPacketLogicalOffset chan < earliestPacketLogicalOffset
                 then currentPacketLogicalOffset chan
                 else earliestPacketLogicalOffset)
              else earliestPacketLogicalOffset)
       E57_UINT64_MAX (channels_' s)"

text \<open>The channels among which the specification selects the earliest packet: those that
  are neither output-blocked nor \<open>inputFinished\<close>.\<close>

definition needsInput :: "'d Env \<Rightarrow> 'd ReaderState \<Rightarrow> 'd DecodeChannel \<Rightarrow> bool" where
  "needsInput env s chan \<longleftrightarrow>
     \<not> isOutputBlocked env chan (sdbHeap s (dbuf chan)) \<and> \<not> inputFinished chan"

definition alreadyReadPacket :: "'d Env \<Rightarrow> 'd ReaderState \<Rightarrow> 'd DecodeChannel \<Rightarrow> u64 \<Rightarrow> bool" where
  "alreadyReadPacket env s channel currentPacketLogicalOffset' \<longleftrightarrow>
     currentPacketLogicalOffset channel \<noteq> currentPacketLogicalOffset'
     \<or> isOutputBlocked env channel (sdbHeap s (dbuf channel))"

text \<open>The body of the first loop of \<^verbatim>\<open>feedPacketToDecoders\<close>, on channel \<open>i\<close>.  The loop state
  is the reader state with the locals \<^verbatim>\<open>anyChannelHasExhaustedPacket\<close> and
  \<^verbatim>\<open>nextPacketLogicalOffset\<close>.  When the decoder throws, the state is the one before its
  call.\<close>

definition feedChannel ::
  "'d Env \<Rightarrow> u64 \<Rightarrow> DataPacket \<Rightarrow> nat \<Rightarrow> 'd ReaderState \<times> bool \<times> u64
     \<Rightarrow> ErrorCode option \<times> ('d ReaderState \<times> bool \<times> u64)" where
  "feedChannel env cur dpkt i st =
     (case st of (s, anyChannelHasExhaustedPacket, nextPacketLogicalOffset) \<Rightarrow>
      let channel = channels_' s ! i in
      if alreadyReadPacket env s channel cur then (None, st)
      else case getBytestream dpkt (bytestreamNumber channel) of
        Inl e \<Rightarrow> (Some e, st)
      | Inr bsb \<Rightarrow>
      (let bsbLength = length bsb in
       if currentBytestreamBufferIndex channel > bsbLength then (Some E57_ERROR_INTERNAL, st)
       else
       (let uneatenLength = bsbLength - currentBytestreamBufferIndex channel in
        if currentBytestreamBufferIndex channel + uneatenLength > bsbLength
        then (Some E57_ERROR_INTERNAL, st)
        else case inputProcess env (decoder channel) (sdbHeap s (dbuf channel))
                    (Some (drop (currentBytestreamBufferIndex channel) bsb)) of
          Inl e \<Rightarrow> (Some e, st)
        | Inr (bytesProcessed, dec, buf) \<Rightarrow>
          (let channel1 = channel\<lparr> decoder := dec,
                 currentBytestreamBufferIndex := currentBytestreamBufferIndex channel + bytesProcessed \<rparr>;
               s1 = s\<lparr> sdbHeap := (sdbHeap s)(dbuf channel := buf),
                       channels_' := (channels_' s)[i := channel1] \<rparr> in
           if isInputBlocked env channel1 (sdbHeap s1 (dbuf channel1))
           then (None, (s1, True, offsetAfter cur dpkt))
           else (None, (s1, anyChannelHasExhaustedPacket, nextPacketLogicalOffset))))))"

text \<open>The body of the loop that moves the channels reading the current packet to the next
  data packet.\<close>

definition advanceChannel ::
  "'d Env \<Rightarrow> u64 \<Rightarrow> u64 \<Rightarrow> DataPacket \<Rightarrow> nat \<Rightarrow> 'd ReaderState \<Rightarrow> ErrorCode option \<times> 'd ReaderState" where
  "advanceChannel env cur nextPacketLogicalOffset dpkt i s =
     (let channel = channels_' s ! i in
      if alreadyReadPacket env s channel cur then (None, s)
      else
      (let channel1 = channel\<lparr> currentPacketLogicalOffset := nextPacketLogicalOffset,
                                currentBytestreamBufferIndex := 0 \<rparr> in
       case getBytestreamBufferLength dpkt (bytestreamNumber channel1) of
         Inl e \<Rightarrow> (Some e, s\<lparr> channels_' := (channels_' s)[i := channel1] \<rparr>)
       | Inr n \<Rightarrow>
           (None, s\<lparr> channels_' :=
              (channels_' s)[i := channel1\<lparr> currentBytestreamBufferLength := n \<rparr>] \<rparr>)))"

text \<open>The body of the loop that marks the channels reading the current packet as
  finished.\<close>

definition finishChannel ::
  "'d Env \<Rightarrow> u64 \<Rightarrow> nat \<Rightarrow> 'd ReaderState \<Rightarrow> ErrorCode option \<times> 'd ReaderState" where
  "finishChannel env cur i s =
     (let channel = channels_' s ! i in
      if alreadyReadPacket env s channel cur then (None, s)
      else (None, s\<lparr> channels_' := (channels_' s)[i := channel\<lparr> inputFinished := True \<rparr>] \<rparr>))"

text \<open>\<^verbatim>\<open>feedPacketToDecoders\<close>.  The result is \<open>None\<close> when the call of \<^verbatim>\<open>findNextDataPacket\<close>
  runs forever.\<close>

definition feedPacketToDecoders ::
  "'d Env \<Rightarrow> u64 \<Rightarrow> 'd ReaderState \<Rightarrow> (ErrorCode option \<times> 'd ReaderState) option" where
  "feedPacketToDecoders env currentPacketLogicalOffset' s =
     (case lock env currentPacketLogicalOffset' of
        Inl e \<Rightarrow> Some (Some e, s)
      | Inr dpkt \<Rightarrow>
      if packetType (header dpkt) \<noteq> DATA_PACKET then Some (Some E57_ERROR_INTERNAL, s)
      else case forM [0..<length (channels_' s)] (feedChannel env currentPacketLogicalOffset' dpkt)
                  (s, False, E57_UINT64_MAX) of
        (Some e, (s1, anyChannelHasExhaustedPacket, nextPacketLogicalOffset)) \<Rightarrow> Some (Some e, s1)
      | (None, (s1, anyChannelHasExhaustedPacket, nextPacketLogicalOffset)) \<Rightarrow>
      (case findNextDataPacket (lock env) (sectionEndLogicalOffset_' s1) nextPacketLogicalOffset of
         None \<Rightarrow> None
       | Some (Inl e) \<Rightarrow> Some (Some e, s1)
       | Some (Inr nextPacketLogicalOffset1) \<Rightarrow>
       if \<not> anyChannelHasExhaustedPacket then Some (None, s1)
       else if nextPacketLogicalOffset1 < E57_UINT64_MAX then
         (case lock env nextPacketLogicalOffset1 of
            Inl e \<Rightarrow> Some (Some e, s1)
          | Inr dpkt1 \<Rightarrow>
              Some (forM [0..<length (channels_' s1)]
                      (advanceChannel env currentPacketLogicalOffset' nextPacketLogicalOffset1 dpkt1) s1))
       else if nextPacketLogicalOffset1 \<ge> sectionEndLogicalOffset_' s1 then
         Some (forM [0..<length (channels_' s1)] (finishChannel env currentPacketLogicalOffset') s1)
       else Some (None, s1)))"

text \<open>The \<^verbatim>\<open>while ( true )\<close> loop of \<^verbatim>\<open>read\<close>; \<open>None\<close> when it runs forever.\<close>

partial_function (option) pullLoop ::
  "'d Env \<Rightarrow> 'd ReaderState \<Rightarrow> (ErrorCode option \<times> 'd ReaderState) option" where
  "pullLoop env s =
     (let earliestPacketLogicalOffset = earliestPacketNeededForInput env s in
      if earliestPacketLogicalOffset = E57_UINT64_MAX then Some (None, s)
      else Option.bind (feedPacketToDecoders env earliestPacketLogicalOffset s)
             (\<lambda>r. case r of
                (Some e, s1) \<Rightarrow> Some (Some e, s1)
              | (None, s1) \<Rightarrow> pullLoop env s1))"

declare pullLoop.simps [code]

text \<open>Modelled from the spec: \<^verbatim>\<open>SourceDestBufferImpl::rewind\<close> is not among the sources; the
  spec (4.5) has it set the write cursor of the buffer to zero.\<close>

definition rewind :: "SourceDestBufferImpl \<Rightarrow> SourceDestBufferImpl" where
  "rewind b = b\<lparr> nextIndex := 0 \<rparr>"

definition rewindAll :: "'d ReaderState \<Rightarrow> 'd ReaderState" where
  "rewindAll s = s\<lparr> sdbHeap := foldl (\<lambda>h a. h(a := rewind (h a))) (sdbHeap s) (dbufs_' s) \<rparr>"

text \<open>The body of the loop that lets each decoder use what it has queued:
  \<^verbatim>\<open>inputProcess( nullptr, 0 )\<close>.\<close>

definition drainChannel :: "'d Env \<Rightarrow> nat \<Rightarrow> 'd ReaderState \<Rightarrow> ErrorCode option \<times> 'd ReaderState" where
  "drainChannel env i s =
     (let channel = channels_' s ! i in
      case inputProcess env (decoder channel) (sdbHeap s (dbuf channel)) None of
        Inl e \<Rightarrow> (Some e, s)
      | Inr (bytesProcessed, dec, buf) \<Rightarrow>
          (None, s\<lparr> sdbHeap := (sdbHeap s)(dbuf channel := buf),
                     channels_' := (channels_' s)[i := channel\<lparr> decoder := dec \<rparr>] \<rparr>))"

text \<open>The body of the loop that verifies that each channel produced the same number of
  records; the loop state is \<^verbatim>\<open>outputCount\<close>.\<close>

definition verifyChannel :: "'d ReaderState \<Rightarrow> nat \<Rightarrow> nat \<Rightarrow> ErrorCode option \<times> nat" where
  "verifyChannel s i outputCount =
     (let chan = channels_' s ! i in
      if i = 0 then (None, nextIndex (sdbHeap s (dbuf chan)))
      else if outputCount \<noteq> nextIndex (sdbHeap s (dbuf chan)) then (Some E57_ERROR_INTERNAL, outputCount)
      else (None, outputCount))"

definition verifyCounts :: "'d ReaderState \<Rightarrow> ErrorCode + nat" where
  "verifyCounts s =
     (case forM [0..<length (channels_' s)] (verifyChannel s) 0 of
        (Some e, outputCount) \<Rightarrow> Inl e
      | (None, outputCount) \<Rightarrow> Inr outputCount)"

text \<open>The part of \<^verbatim>\<open>read\<close> up to the end of the \<^verbatim>\<open>while\<close> loop.\<close>

definition readPull :: "'d Env \<Rightarrow> 'd ReaderState \<Rightarrow> (ErrorCode option \<times> 'd ReaderState) option" where
  "readPull env s =
     (case checkImageFileOpen s of
        Some e \<Rightarrow> Some (Some e, s)
      | None \<Rightarrow>
      (case checkReaderOpen s of
        Some e \<Rightarrow> Some (Some e, s)
      | None \<Rightarrow>
      (case forM [0..<length (channels_' s)] (drainChannel env) (rewindAll s) of
        (Some e, s2) \<Rightarrow> Some (Some e, s2)
      | (None, s2) \<Rightarrow> pullLoop env s2)))"

text \<open>\<^verbatim>\<open>read()\<close>: the exception or the number of records returned, with the state.\<close>

definition read :: "'d Env \<Rightarrow> 'd ReaderState \<Rightarrow> ((ErrorCode + nat) \<times> 'd ReaderState) option" where
  "read env s =
     (case readPull env s of
        None \<Rightarrow> None
      | Some (Some e, s3) \<Rightarrow> Some (Inl e, s3)
      | Some (None, s3) \<Rightarrow> Some (verifyCounts s3, s3))"

text \<open>\<^verbatim>\<open>read( dbufs )\<close>.\<close>

definition read_dbufs ::
  "'d Env \<Rightarrow> nat list \<Rightarrow> 'd ReaderState \<Rightarrow> ((ErrorCode + nat) \<times> 'd ReaderState) option" where
  "read_dbufs env dbufs s =
     (case checkReaderOpen s of
        Some e \<Rightarrow> Some (Inl e, s)
      | None \<Rightarrow>
      (case setBuffers env dbufs s of
        (Some e, s1) \<Rightarrow> Some (Inl e, s1)
      | (None, s1) \<Rightarrow> read env s1))"

text \<open>Between two states, the reader has the same number of channels and no channel has a
  smaller \<open>currentPacketLogicalOffset\<close> in the second state than in the first.\<close>

definition offsetsNotDecreased :: "'d ReaderState \<Rightarrow> 'd ReaderState \<Rightarrow> bool" where
  "offsetsNotDecreased s s' \<longleftrightarrow>
     length (channels_' s') = length (channels_' s)
     \<and> (\<forall>j<length (channels_' s).
           currentPacketLogicalOffset (channels_' s ! j) \<le> currentPacketLogicalOffset (channels_' s' ! j))"

text \<open>Between two states, the bound list \<open>dbufs_'\<close> and the buffer handle of every channel
  are the same.\<close>

definition sameBinding :: "'d ReaderState \<Rightarrow> 'd ReaderState \<Rightarrow> bool" where
  "sameBinding s s' \<longleftrightarrow>
     dbufs_' s' = dbufs_' s \<and> map dbuf (channels_' s') = map dbuf (channels_' s)"

section \<open>Example instances\<close>

text \<open>A decoder for which one byte is one record: it stores as many of the offered bytes as
  its destination buffer has room for and reports how many it consumed; it has no state of
  its own.\<close>

definition byteDecoder ::
  "unit \<Rightarrow> SourceDestBufferImpl \<Rightarrow> u8 list option \<Rightarrow> ErrorCode + (nat \<times> unit \<times> SourceDestBufferImpl)" where
  "byteDecoder d buf bytes =
     (case bytes of
        None \<Rightarrow> Inr (0, d, buf)
      | Some bs \<Rightarrow>
          Inr (min (length bs) (capacity buf - nextIndex buf), d,
               buf\<lparr> nextIndex := nextIndex buf + min (length bs) (capacity buf - nextIndex buf) \<rparr>))"

text \<open>An environment around \<open>smallCache\<close>: the section starts at offset 8 and ends at 32, its
  first data packet is the one at offset 16 with the three bytes 1, 2, 3 for bytestream 0.
  A channel is output-blocked when its buffer is full and input-blocked when it is finished
  or has consumed its slice of the packet.\<close>

definition demoEnv :: "unit Env" where
  "demoEnv =
     \<lparr> lock = smallCache,
       inputProcess = byteDecoder,
       isOutputBlocked = (\<lambda>c b. nextIndex b = capacity b),
       isInputBlocked = (\<lambda>c b. inputFinished c
                           \<or> currentBytestreamBufferIndex c = currentBytestreamBufferLength c),
       checkBuffers = (\<lambda>bs allowMissing. None),
       findTerminalPosition = (\<lambda>p. Inr (Some 0)),
       DecoderFactory = (\<lambda>i h. Inr ()),
       childCount = 3,
       getBinarySectionLogicalStart = 8,
       readSectionHeader = (\<lambda>off. Inr \<lparr> sectionLogicalLength = 24, dataPhysicalOffset = 16 \<rparr>),
       physicalToLogical = (\<lambda>off. off) \<rparr>"

text \<open>Buffers: handle \<open>a\<close> is an Int8 buffer at address \<open>a\<close>, of capacity 2 for the handles
  below 8 and of capacity 5 for the others.\<close>

definition demoBuffer :: "nat \<Rightarrow> SourceDestBufferImpl" where
  "demoBuffer a =
     \<lparr> pathName = ''/x'', memoryRepresentation = Int8, capacity = (if a < 8 then 2 else 5),
       doConversion = False,
       doScaling = False, stride = 1, base = a, nextIndex = 0 \<rparr>"

text \<open>The state before a reader is constructed, for an open and for a closed image file.\<close>

definition demoStart :: "bool \<Rightarrow> unit ReaderState" where
  "demoStart fileOpen =
     \<lparr> imfIsOpen = fileOpen, imfReaderCount = 0, sdbHeap = demoBuffer, isOpen_' = False,
       dbufs_' = [], channels_' = [], recordCount_' = 0, maxRecordCount_' = 0, cache_' = False,
       sectionEndLogicalOffset_' = 0 \<rparr>"

text \<open>The reader that the constructor makes from \<open>demoStart\<close> with the one buffer of handle 0.\<close>

definition demoChannel :: "unit DecodeChannel" where
  "demoChannel =
     \<lparr> dbuf = 0, decoder = (), bytestreamNumber = 0, maxRecordCount = 3,
       currentPacketLogicalOffset = 16, currentBytestreamBufferIndex = 0,
       currentBytestreamBufferLength = 3, inputFinished = False \<rparr>"

definition demoReader :: "bool \<Rightarrow> unit ReaderState" where
  "demoReader fileOpen =
     \<lparr> imfIsOpen = fileOpen, imfReaderCount = 1, sdbHeap = demoBuffer, isOpen_' = True,
       dbufs_' = [0], channels_' = [demoChannel], recordCount_' = 0, maxRecordCount_' = 3,
       cache_' = True, sectionEndLogicalOffset_' = 32 \<rparr>"

text \<open>\<open>demoReader\<close> after the packet at offset 16 has been fed once: the buffer of capacity 2 is
  full and two of the three bytes are consumed.\<close>

definition demoReaderFed :: "bool \<Rightarrow> unit ReaderState" where
  "demoReaderFed fileOpen = (demoReader fileOpen)
     \<lparr> sdbHeap := demoBuffer(0 := (demoBuffer 0)\<lparr> nextIndex := 2 \<rparr>),
       channels_' := [demoChannel\<lparr> currentBytestreamBufferIndex := 2 \<rparr>] \<rparr>"

text \<open>The buffer of handle 1 agrees with the buffer of handle 0 in all but its address.
  \<open>demoReaderSet\<close> is \<open>demoReader\<close> after \<^verbatim>\<open>setBuffers\<close> with the list of that one buffer, and
  \<open>demoReaderRebound\<close> is \<open>demoReader\<close> after \<^verbatim>\<open>read( dbufs )\<close> with that list: the bound list
  holds handle 1, the channel still holds handle 0, and the two records are in the buffer of
  handle 0.\<close>

definition demoReaderSet :: "unit ReaderState" where
  "demoReaderSet = (demoReader True)\<lparr> dbufs_' := [1] \<rparr>"

definition demoReaderRebound :: "unit ReaderState" where
  "demoReaderRebound = (demoReaderFed True)\<lparr> dbufs_' := [1] \<rparr>"

text \<open>A file with two data packets of 16 bytes, at offsets 16 and 32, in a section from 8 to
  48.  \<open>bigReader\<close> is the reader that the constructor makes with the buffer of handle 8, of
  capacity 5; \<open>bigReaderAdvanced\<close> is that reader after the first packet has been fed, which
  exhausts it and moves the channel to the second packet; \<open>bigReaderRead\<close> is the reader after
  a whole \<^verbatim>\<open>read()\<close>, which fills the buffer from the two packets.\<close>

definition twoPacketCache :: "u64 \<Rightarrow> ErrorCode + DataPacket" where
  "twoPacketCache off =
     (if off = 16 \<or> off = 32 then Inr dataPacket16 else Inl E57_ERROR_BAD_CV_PACKET)"

definition twoPacketEnv :: "unit Env" where
  "twoPacketEnv = demoEnv
     \<lparr> lock := twoPacketCache,
       readSectionHeader := (\<lambda>off. Inr \<lparr> sectionLogicalLength = 40, dataPhysicalOffset = 16 \<rparr>) \<rparr>"

definition bigReader :: "unit ReaderState" where
  "bigReader =
     \<lparr> imfIsOpen = True, imfReaderCount = 1, sdbHeap = demoBuffer, isOpen_' = True,
       dbufs_' = [8], channels_' = [demoChannel\<lparr> dbuf := 8 \<rparr>],
       recordCount_' = 0, maxRecordCount_' = 3, cache_' = True, sectionEndLogicalOffset_' = 48 \<rparr>"

definition bigReaderAdvanced :: "unit ReaderState" where
  "bigReaderAdvanced = bigReader
     \<lparr> sdbHeap := demoBuffer(8 := (demoBuffer 8)\<lparr> nextIndex := 3 \<rparr>),
       channels_' := [demoChannel\<lparr> dbuf := 8, currentPacketLogicalOffset := 32 \<rparr>] \<rparr>"

definition bigReaderRead :: "unit ReaderState" where
  "bigReaderRead = bigReader
     \<lparr> sdbHeap := demoBuffer(8 := (demoBuffer 8)\<lparr> nextIndex := 5 \<rparr>),
       channels_' := [demoChannel\<lparr> dbuf := 8, currentPacketLogicalOffset := 32,
                                     currentBytestreamBufferIndex := 2 \<rparr>] \<rparr>"


section \<open>Properties of SourceDestBuffer\<close>

lemma min_stride_spec: "min_stride sz r = spec_representation_size sz r"
  by (cases r) (simp_all add: spec_representation_size_def)

lemma SourceDestBuffer_new_stride:
  assumes "SourceDestBuffer_new sz pathOk p r b c dc ds st = Inr s"
  shows "\<exists>m. min_stride sz (memoryRepresentation s) = Some m \<and> m \<le> stride s"
  using assms
  by (auto simp: SourceDestBuffer_new_def split: if_splits option.splits)

text \<open>Claim C9.  A SourceDestBuffer has no public operation that changes it after
  construction (every getter leaves the state as it is), so the reachable states are the
  constructed ones.  Every constructed buffer has a known representation and a stride of at
  least the size the specification gives for it, and passes \<^verbatim>\<open>checkInvariant\<close>; on any
  buffer state, \<^verbatim>\<open>checkInvariant\<close> throws ErrorInvarianceViolation exactly when the
  representation is unknown or the stride is below that size, and returns normally
  otherwise.\<close>

theorem checkInvariant_stride:
  "(SourceDestBuffer_new sz pathOk p r b c dc ds st = Inr s \<longrightarrow>
      (\<exists>m. spec_representation_size sz (memoryRepresentation s) = Some m \<and> m \<le> stride s)
      \<and> checkInvariant sz s = Inr ())
   \<and> (checkInvariant sz x = Inl ErrorInvarianceViolation \<longleftrightarrow>
        (spec_representation_size sz (memoryRepresentation x) = None
         \<or> (\<exists>m. spec_representation_size sz (memoryRepresentation x) = Some m \<and> stride x < m)))
   \<and> (checkInvariant sz x = Inr () \<longleftrightarrow>
        (\<exists>m. spec_representation_size sz (memoryRepresentation x) = Some m \<and> m \<le> stride x))"
proof (intro conjI impI)
  assume new: "SourceDestBuffer_new sz pathOk p r b c dc ds st = Inr s"
  from SourceDestBuffer_new_stride [OF new]
  obtain m where m: "min_stride sz (memoryRepresentation s) = Some m" "m \<le> stride s"
    by blast
  then show "\<exists>m. spec_representation_size sz (memoryRepresentation s) = Some m \<and> m \<le> stride s"
    by (simp add: min_stride_spec)
  from m show "checkInvariant sz s = Inr ()"
    by (simp add: checkInvariant_def)
next
  show "checkInvariant sz x = Inl ErrorInvarianceViolation \<longleftrightarrow>
        (spec_representation_size sz (memoryRepresentation x) = None
         \<or> (\<exists>m. spec_representation_size sz (memoryRepresentation x) = Some m \<and> stride x < m))"
    by (simp add: checkInvariant_def min_stride_spec [symmetric] split: option.splits)
next
  show "checkInvariant sz x = Inr () \<longleftrightarrow>
        (\<exists>m. spec_representation_size sz (memoryRepresentation x) = Some m \<and> m \<le> stride x)"
    by (auto simp: checkInvariant_def min_stride_spec [symmetric] split: option.splits)
qed

theorem checkInvariant_stride_witness:
  "SourceDestBuffer_new 32 (\<lambda>p. True) ''/x'' Int32 7 100 False False 0
     = Inr \<lparr> pathName = ''/x'', memoryRepresentation = Int32, capacity = 100,
             doConversion = False, doScaling = False, stride = 4, base = 7, nextIndex = 0 \<rparr>
   \<and> spec_representation_size 32 Int32 = Some 4
   \<and> checkInvariant 32 \<lparr> pathName = ''/x'', memoryRepresentation = Int32, capacity = 100,
             doConversion = False, doScaling = False, stride = 4, base = 7, nextIndex = 0 \<rparr> = Inr ()
   \<and> checkInvariant 32 \<lparr> pathName = ''/x'', memoryRepresentation = Int32, capacity = 100,
             doConversion = False, doScaling = False, stride = 3, base = 7, nextIndex = 0 \<rparr>
       = Inl ErrorInvarianceViolation"
  using checkInvariant_stride [of 32 "\<lambda>p. True" "''/x''" Int32 7 100 False False 0
      "\<lparr> pathName = ''/x'', memoryRepresentation = Int32, capacity = 100,
             doConversion = False, doScaling = False, stride = 4, base = 7, nextIndex = 0 \<rparr>"
      "\<lparr> pathName = ''/x'', memoryRepresentation = Int32, capacity = 100,
             doConversion = False, doScaling = False, stride = 3, base = 7, nextIndex = 0 \<rparr>"]
  by (simp add: SourceDestBuffer_new_def spec_representation_size_def)

section \<open>Properties of findNextDataPacket\<close>

lemma findNextDataPacket_past_end:
  "\<not> start < sectionEnd \<Longrightarrow> findNextDataPacket lck sectionEnd start = Some (Inr E57_UINT64_MAX)"
  by (simp add: findNextDataPacket.simps)

lemma not_less_E57_UINT64_MAX: "\<not> E57_UINT64_MAX < (x :: u64)"
  by (simp add: E57_UINT64_MAX_def word_order.extremum_strict)

lemma offsetAfter_unat:
  assumes "unat off + unat (packetLogicalLengthMinus1 (header p)) + 1 < 2 ^ 64"
  shows "unat (offsetAfter off p) = unat off + unat (packetLogicalLengthMinus1 (header p)) + 1"
proof -
  have u: "unat (ucast (packetLogicalLengthMinus1 (header p)) :: u64) = unat (packetLogicalLengthMinus1 (header p))"
  proof -
    have "unat (packetLogicalLengthMinus1 (header p)) < 2 ^ 16"
      using unsigned_less [of "packetLogicalLengthMinus1 (header p)"] by simp
    then have "unat (packetLogicalLengthMinus1 (header p)) < 2 ^ 64"
      by (rule less_le_trans) simp
    then show ?thesis
      by (simp add: unsigned_ucast_eq take_bit_nat_eq_self)
  qed
  show ?thesis
    using assms unfolding offsetAfter_def
    by (simp add: unat_word_ariths u)
qed

lemma findNextDataPacket_terminates:
  assumes nw: "packetsDoNotWrap lck"
  shows "\<exists>r. findNextDataPacket lck sectionEnd start = Some r"
proof (induction "unat sectionEnd - unat start" arbitrary: start rule: less_induct)
  case less
  show ?case
  proof (cases "start < sectionEnd")
    case False
    then show ?thesis by (simp add: findNextDataPacket.simps)
  next
    case lt: True
    show ?thesis
    proof (cases "lck start")
      case (Inl e)
      with lt show ?thesis by (simp add: findNextDataPacket.simps)
    next
      case (Inr p)
      show ?thesis
      proof (cases "packetType (header p) = DATA_PACKET")
        case True
        with lt Inr show ?thesis by (simp add: findNextDataPacket.simps)
      next
        case False
        from nw Inr have "unat start + unat (packetLogicalLengthMinus1 (header p)) + 1 < 2 ^ 64"
          by (simp add: packetsDoNotWrap_def)
        then have "unat (offsetAfter start p) > unat start"
          by (simp add: offsetAfter_unat)
        moreover from lt have "unat start < unat sectionEnd"
          by (simp add: word_less_nat_alt)
        ultimately have "unat sectionEnd - unat (offsetAfter start p) < unat sectionEnd - unat start"
          by arith
        from less [OF this] obtain r where
          "findNextDataPacket lck sectionEnd (offsetAfter start p) = Some r" by blast
        with lt Inr False show ?thesis
          by (subst findNextDataPacket.simps) simp
      qed
    qed
  qed
qed


lemma findNextDataPacket_scanResult:
  assumes "findNextDataPacket lck sectionEnd a = Some r"
  shows "scanResult lck sectionEnd a r"
proof (rule findNextDataPacket.raw_induct [where P = scanResult, OF _ assms])
  fix f :: "(u64 \<Rightarrow> ErrorCode + DataPacket) \<Rightarrow> u64 \<Rightarrow> u64 \<Rightarrow> (ErrorCode + u64) option"
    and lck sectionEnd a r
  assume IH: "\<And>l e x y. f l e x = Some y \<Longrightarrow> scanResult l e x y"
  assume body: "(if a < sectionEnd
      then case lck a of Inl e \<Rightarrow> Some (Inl e)
           | Inr dpkt \<Rightarrow>
               if packetType (header dpkt) = DATA_PACKET
               then Some (Inr a)
               else f lck sectionEnd (offsetAfter a dpkt)
      else Some (Inr E57_UINT64_MAX)) = Some r"
  show "scanResult lck sectionEnd a r"
  proof (cases "a < sectionEnd")
    case False
    with body have "r = Inr E57_UINT64_MAX" by simp
    with False show ?thesis
      unfolding scanResult_def by (intro exI [of _ a]) (simp add: skipsTo.here)
  next
    case lt: True
    show ?thesis
    proof (cases "lck a")
      case (Inl e)
      with lt body have "r = Inl e" by simp
      with lt Inl show ?thesis
        unfolding scanResult_def by (intro exI [of _ a]) (simp add: skipsTo.here)
    next
      case (Inr p)
      show ?thesis
      proof (cases "packetType (header p) = DATA_PACKET")
        case True
        with lt Inr body have "r = Inr a" by simp
        with lt Inr True show ?thesis
          unfolding scanResult_def by (intro exI [of _ a]) (simp add: skipsTo.here)
      next
        case False
        with lt Inr body have "f lck sectionEnd (offsetAfter a p) = Some r" by simp
        from IH [OF this] obtain b where
          b: "skipsTo lck sectionEnd (offsetAfter a p) b"
          and res: "if b < sectionEnd then
           (case lck b of Inl e \<Rightarrow> r = Inl e
            | Inr p \<Rightarrow> packetType (header p) = DATA_PACKET \<and> r = Inr b)
         else r = Inr E57_UINT64_MAX"
          unfolding scanResult_def by blast
        from lt Inr False b have "skipsTo lck sectionEnd a b" by (rule skipsTo.skip)
        with res show ?thesis unfolding scanResult_def by blast
      qed
    qed
  qed
qed


lemma skipsTo_le:
  assumes "skipsTo lck sectionEnd a b" and "packetsDoNotWrap lck"
  shows "a \<le> b"
  using assms
proof (induction rule: skipsTo.induct)
  case (here a)
  show ?case by simp
next
  case (skip a p b)
  from skip.prems skip.hyps(2)
  have "unat a + unat (packetLogicalLengthMinus1 (header p)) + 1 < 2 ^ 64"
    by (simp add: packetsDoNotWrap_def)
  then have "unat a \<le> unat (offsetAfter a p)"
    by (simp add: offsetAfter_unat)
  then have "a \<le> offsetAfter a p" by (simp add: word_le_nat_alt)
  also from skip.IH skip.prems have "offsetAfter a p \<le> b" by simp
  finally show ?case .
qed

lemma fileBacked_noWrap:
  assumes "fileBacked fileLength lck" and "fileLength + 65536 \<le> 2 ^ 64"
  shows "packetsDoNotWrap lck"
  unfolding packetsDoNotWrap_def
proof (intro allI impI)
  fix off p
  assume served: "lck off = Inr p"
  have "unat off < fileLength"
  proof (rule ccontr)
    assume "\<not> unat off < fileLength"
    then have "fileLength \<le> unat off" by simp
    with assms(1) obtain e where "lck off = Inl e" unfolding fileBacked_def by blast
    with served show False by simp
  qed
  moreover have "unat (packetLogicalLengthMinus1 (header p)) < 65536"
    using unsigned_less [of "packetLogicalLengthMinus1 (header p)"] by simp
  ultimately show "unat off + unat (packetLogicalLengthMinus1 (header p)) + 1 < 2 ^ 64"
    using assms(2) by arith
qed

text \<open>Claim C5.  The packet cache reads from a file, so no packet that it serves extends
  to or past offset \<open>2 ^ 64\<close> (this holds of every cache over a file whose length leaves 64 KiB
  below \<open>2 ^ 64\<close>).  For such a cache \<^verbatim>\<open>findNextDataPacket\<close> always returns or throws (it does not
  run forever), and what it gives is what the scan is specified to give: starting at \<open>start\<close>
  it steps over non-data packets before the section end by their header length, returns the
  offset of the first data packet it meets before the section end, and returns the failure
  sentinel when it reaches or passes the section end first.  When \<open>start\<close> is already at or
  past the section end, and in particular when it is the sentinel itself, the sentinel is
  returned at once, whatever the cache.\<close>

theorem findNextDataPacket_scan:
  assumes "packetsDoNotWrap lck"
  shows "(\<exists>r. findNextDataPacket lck sectionEnd start = Some r \<and> scanResult lck sectionEnd start r)
         \<and> (sectionEnd \<le> start \<longrightarrow>
               findNextDataPacket lck sectionEnd start = Some (Inr E57_UINT64_MAX))
         \<and> findNextDataPacket lck sectionEnd E57_UINT64_MAX = Some (Inr E57_UINT64_MAX)"
proof (intro conjI impI)
  from findNextDataPacket_terminates [OF assms] obtain r
    where r: "findNextDataPacket lck sectionEnd start = Some r" by blast
  with findNextDataPacket_scanResult [OF r]
  show "\<exists>r. findNextDataPacket lck sectionEnd start = Some r \<and> scanResult lck sectionEnd start r"
    by blast
next
  assume "sectionEnd \<le> start"
  then have "\<not> start < sectionEnd" by simp
  then show "findNextDataPacket lck sectionEnd start = Some (Inr E57_UINT64_MAX)"
    by (rule findNextDataPacket_past_end)
next
  show "findNextDataPacket lck sectionEnd E57_UINT64_MAX = Some (Inr E57_UINT64_MAX)"
    by (rule findNextDataPacket_past_end) (rule not_less_E57_UINT64_MAX)
qed

lemma smallCache_fileBacked: "fileBacked 17 smallCache"
  by (auto simp: fileBacked_def smallCache_def)

lemma smallCache_noWrap: "packetsDoNotWrap smallCache"
  by (rule fileBacked_noWrap [OF smallCache_fileBacked]) simp

theorem findNextDataPacket_scan_witness:
  "packetsDoNotWrap smallCache
   \<and> findNextDataPacket smallCache 100 0 = Some (Inr 16)
   \<and> scanResult smallCache 100 0 (Inr 16)
   \<and> findNextDataPacket smallCache 100 E57_UINT64_MAX = Some (Inr E57_UINT64_MAX)"
proof -
  have f: "findNextDataPacket smallCache 100 0 = Some (Inr 16)"
    by (simp add: findNextDataPacket.simps smallCache_def indexPacket16_def dataPacket16_def
        offsetAfter_def)
  from findNextDataPacket_scan [OF smallCache_noWrap, of 100 0] f
  show ?thesis by (simp add: smallCache_noWrap)
qed

section \<open>Properties of close, seek and the constructor\<close>

lemma close_result:
  "close s = (None, if isOpen_' s
     then s\<lparr> imfReaderCount := imfReaderCount s - 1, channels_' := [], cache_' := False, isOpen_' := False \<rparr>
     else s\<lparr> imfReaderCount := imfReaderCount s - 1 \<rparr>)"
  by (simp add: close_def decrReaderCount_def checkImageFileOpen_def Let_def)

lemma closeTimes_count: "imfReaderCount (closeTimes n s) = imfReaderCount s - int n"
  by (induction n arbitrary: s) (simp_all add: close_result)

text \<open>Claim C1 fails on the code.  \<^verbatim>\<open>close\<close> decrements the reader count of the file before
  it tests whether the reader is open, so every call decrements it: \<open>n\<close> calls in a row
  lower the count by \<open>n\<close>, and a second call changes the state that the first one left.
  Only the destructor is guarded: after a \<^verbatim>\<open>close\<close> the reader is not open and the destructor
  does nothing.\<close>

theorem close_decrements_every_time:
  "imfReaderCount (closeTimes n s) = imfReaderCount s - int n
   \<and> imfReaderCount (snd (close (snd (close s)))) = imfReaderCount (snd (close s)) - 1
   \<and> snd (close (snd (close s))) \<noteq> snd (close s)
   \<and> isOpen_' (snd (close s)) = False
   \<and> destructor (snd (close s)) = snd (close s)"
proof -
  have a: "imfReaderCount (snd (close (snd (close s)))) = imfReaderCount (snd (close s)) - 1"
    by (simp add: close_result)
  then have "imfReaderCount (snd (close (snd (close s)))) \<noteq> imfReaderCount (snd (close s))"
    by simp
  then have b: "snd (close (snd (close s))) \<noteq> snd (close s)"
    by metis
  have c: "isOpen_' (snd (close s)) = False"
    by (simp add: close_result)
  then have d: "destructor (snd (close s)) = snd (close s)"
    by (simp add: destructor_def)
  from a b c d closeTimes_count show ?thesis by blast
qed

text \<open>Claim C8.  The constructor called with an empty buffer list throws
  \<^verbatim>\<open>E57_ERROR_BAD_API_ARGUMENT\<close>; at that moment the reader is not marked open, the reader
  count of the file is what it was, and there are no channels.\<close>

theorem new_empty_dbufs:
  "fst (CompressedVectorReaderImpl_new env [] s0) = Some E57_ERROR_BAD_API_ARGUMENT
   \<and> isOpen_' (snd (CompressedVectorReaderImpl_new env [] s0)) = False
   \<and> imfReaderCount (snd (CompressedVectorReaderImpl_new env [] s0)) = imfReaderCount s0
   \<and> channels_' (snd (CompressedVectorReaderImpl_new env [] s0)) = []"
  by (simp add: CompressedVectorReaderImpl_new_def checkImageFileOpen_def Let_def)

section \<open>Properties of setBuffers\<close>

lemma checkCompatible_compatible:
  "checkCompatible oldBuf newBuf =
     (if compatible oldBuf newBuf then None else Some E57_ERROR_BUFFERS_NOT_COMPATIBLE)"
  by (simp add: checkCompatible_def compatible_def)

lemma compatible_base: "compatible b (b\<lparr> base := p \<rparr>)"
  by (simp add: compatible_def)

lemma forM_check_None:
  "fst (forM is (\<lambda>i u. (chk i, u)) ()) = None \<longleftrightarrow> (\<forall>i\<in>set is. chk i = None)"
  by (induction "is") (auto split: option.splits)

lemma forM_check_Some:
  "fst (forM is (\<lambda>i u. (chk i, u)) ()) = Some e \<Longrightarrow> \<exists>i\<in>set is. chk i = Some e"
  by (induction "is") (auto split: option.splits)

lemma pairwise_all:
  assumes "length dbufs = length (dbufs_' s)"
    and "\<forall>i<length dbufs. compatible (sdbHeap s (dbufs_' s ! i)) (sdbHeap s (dbufs ! i))"
  shows "fst (forM [0..<length (dbufs_' s)]
              (\<lambda>i u. (checkCompatible (sdbHeap s (dbufs_' s ! i)) (sdbHeap s (dbufs ! i)), u)) ()) = None"
  using assms by (simp add: forM_check_None checkCompatible_compatible)

lemma pairwise_some:
  assumes "length dbufs = length (dbufs_' s)"
    and "\<exists>i<length dbufs. \<not> compatible (sdbHeap s (dbufs_' s ! i)) (sdbHeap s (dbufs ! i))"
  shows "fst (forM [0..<length (dbufs_' s)]
              (\<lambda>i u. (checkCompatible (sdbHeap s (dbufs_' s ! i)) (sdbHeap s (dbufs ! i)), u)) ())
         = Some E57_ERROR_BUFFERS_NOT_COMPATIBLE"
proof -
  let ?r = "fst (forM [0..<length (dbufs_' s)]
              (\<lambda>i u. (checkCompatible (sdbHeap s (dbufs_' s ! i)) (sdbHeap s (dbufs ! i)), u)) ())"
  have "?r \<noteq> None"
    using assms by (auto simp: forM_check_None checkCompatible_compatible)
  then obtain e where e: "?r = Some e" by auto
  from forM_check_Some [OF e] have "e = E57_ERROR_BUFFERS_NOT_COMPATIBLE"
    by (auto simp: checkCompatible_compatible split: if_splits)
  with e show ?thesis by simp
qed

lemma setBuffers_checkBuffers:
  "checkBuffers env (map (sdbHeap s) dbufs) True = Some e \<Longrightarrow> setBuffers env dbufs s = (Some e, s)"
  by (simp add: setBuffers_def)

lemma setBuffers_size:
  "checkBuffers env (map (sdbHeap s) dbufs) True = None \<Longrightarrow> dbufs_' s \<noteq> [] \<Longrightarrow>
   length dbufs \<noteq> length (dbufs_' s) \<Longrightarrow>
   setBuffers env dbufs s = (Some E57_ERROR_BUFFERS_NOT_COMPATIBLE, s)"
  by (auto simp: setBuffers_def)

lemma setBuffers_incompatible:
  assumes "checkBuffers env (map (sdbHeap s) dbufs) True = None"
    and "length dbufs = length (dbufs_' s)"
    and "\<exists>i<length dbufs. \<not> compatible (sdbHeap s (dbufs_' s ! i)) (sdbHeap s (dbufs ! i))"
  shows "setBuffers env dbufs s = (Some E57_ERROR_BUFFERS_NOT_COMPATIBLE, s)"
proof -
  from assms(2,3) have "dbufs_' s \<noteq> []" by auto
  with assms(1,2) pairwise_some [OF assms(2,3)] show ?thesis
    by (simp add: setBuffers_def)
qed

lemma setBuffers_accepts:
  assumes "checkBuffers env (map (sdbHeap s) dbufs) True = None"
    and "length dbufs = length (dbufs_' s)"
    and "\<forall>i<length dbufs. compatible (sdbHeap s (dbufs_' s ! i)) (sdbHeap s (dbufs ! i))"
  shows "setBuffers env dbufs s = (None, s\<lparr> dbufs_' := dbufs \<rparr>)"
  using assms(1,2) pairwise_all [OF assms(2,3)]
  by (simp add: setBuffers_def)

text \<open>Claim C7.  On an open reader with buffers bound, \<^verbatim>\<open>read( dbufs )\<close> runs \<^verbatim>\<open>checkBuffers\<close>
  on the new list and throws what it throws; otherwise a list of another size than the bound
  one throws \<^verbatim>\<open>E57_ERROR_BUFFERS_NOT_COMPATIBLE\<close>, a list of the same size with a buffer that
  differs from the old one at its index in path, representation, capacity or stride throws
  that error too, and a list of the same size whose buffers all agree with the old ones in
  these four attributes is accepted: it becomes the bound list and the read goes on with
  it.  A buffer that differs from the old one in its pointer only is compatible.\<close>

theorem read_dbufs_rebind:
  assumes "isOpen_' s" and "dbufs_' s \<noteq> []"
  shows "(checkBuffers env (map (sdbHeap s) dbufs) True = Some e \<longrightarrow>
            read_dbufs env dbufs s = Some (Inl e, s))
       \<and> (checkBuffers env (map (sdbHeap s) dbufs) True = None \<longrightarrow>
            (length dbufs \<noteq> length (dbufs_' s) \<longrightarrow>
               read_dbufs env dbufs s = Some (Inl E57_ERROR_BUFFERS_NOT_COMPATIBLE, s))
          \<and> (length dbufs = length (dbufs_' s)
               \<and> (\<exists>i<length dbufs. \<not> compatible (sdbHeap s (dbufs_' s ! i)) (sdbHeap s (dbufs ! i))) \<longrightarrow>
               read_dbufs env dbufs s = Some (Inl E57_ERROR_BUFFERS_NOT_COMPATIBLE, s))
          \<and> (length dbufs = length (dbufs_' s)
               \<and> (\<forall>i<length dbufs. compatible (sdbHeap s (dbufs_' s ! i)) (sdbHeap s (dbufs ! i))) \<longrightarrow>
               setBuffers env dbufs s = (None, s\<lparr> dbufs_' := dbufs \<rparr>)
               \<and> read_dbufs env dbufs s = read env (s\<lparr> dbufs_' := dbufs \<rparr>)))
       \<and> compatible b (b\<lparr> base := p \<rparr>)"
proof -
  from assms(1) have ro: "checkReaderOpen s = None" by (simp add: checkReaderOpen_def)
  have 1: "checkBuffers env (map (sdbHeap s) dbufs) True = Some e \<longrightarrow>
            read_dbufs env dbufs s = Some (Inl e, s)"
    by (simp add: read_dbufs_def ro setBuffers_checkBuffers)
  have 2: "checkBuffers env (map (sdbHeap s) dbufs) True = None \<longrightarrow>
            length dbufs \<noteq> length (dbufs_' s) \<longrightarrow>
               read_dbufs env dbufs s = Some (Inl E57_ERROR_BUFFERS_NOT_COMPATIBLE, s)"
    using assms(2) by (simp add: read_dbufs_def ro setBuffers_size)
  have 3: "checkBuffers env (map (sdbHeap s) dbufs) True = None \<longrightarrow>
            length dbufs = length (dbufs_' s)
               \<and> (\<exists>i<length dbufs. \<not> compatible (sdbHeap s (dbufs_' s ! i)) (sdbHeap s (dbufs ! i))) \<longrightarrow>
               read_dbufs env dbufs s = Some (Inl E57_ERROR_BUFFERS_NOT_COMPATIBLE, s)"
  proof (intro impI)
    assume cb: "checkBuffers env (map (sdbHeap s) dbufs) True = None"
      and h: "length dbufs = length (dbufs_' s)
               \<and> (\<exists>i<length dbufs. \<not> compatible (sdbHeap s (dbufs_' s ! i)) (sdbHeap s (dbufs ! i)))"
    from h have "length dbufs = length (dbufs_' s)"
      and "\<exists>i<length dbufs. \<not> compatible (sdbHeap s (dbufs_' s ! i)) (sdbHeap s (dbufs ! i))"
      by blast+
    from setBuffers_incompatible [OF cb this]
    show "read_dbufs env dbufs s = Some (Inl E57_ERROR_BUFFERS_NOT_COMPATIBLE, s)"
      by (simp add: read_dbufs_def ro)
  qed
  have 4: "checkBuffers env (map (sdbHeap s) dbufs) True = None \<longrightarrow>
            length dbufs = length (dbufs_' s)
               \<and> (\<forall>i<length dbufs. compatible (sdbHeap s (dbufs_' s ! i)) (sdbHeap s (dbufs ! i))) \<longrightarrow>
               setBuffers env dbufs s = (None, s\<lparr> dbufs_' := dbufs \<rparr>)
               \<and> read_dbufs env dbufs s = read env (s\<lparr> dbufs_' := dbufs \<rparr>)"
  proof (intro impI)
    assume cb: "checkBuffers env (map (sdbHeap s) dbufs) True = None"
      and h: "length dbufs = length (dbufs_' s)
               \<and> (\<forall>i<length dbufs. compatible (sdbHeap s (dbufs_' s ! i)) (sdbHeap s (dbufs ! i)))"
    from h have "length dbufs = length (dbufs_' s)"
      and "\<forall>i<length dbufs. compatible (sdbHeap s (dbufs_' s ! i)) (sdbHeap s (dbufs ! i))"
      by blast+
    from setBuffers_accepts [OF cb this]
    show "setBuffers env dbufs s = (None, s\<lparr> dbufs_' := dbufs \<rparr>)
               \<and> read_dbufs env dbufs s = read env (s\<lparr> dbufs_' := dbufs \<rparr>)"
      by (simp add: read_dbufs_def ro)
  qed
  from 1 2 3 4 compatible_base show ?thesis by blast
qed

theorem read_dbufs_rebind_witness:
  "isOpen_' (demoReader True) \<and> dbufs_' (demoReader True) \<noteq> []
   \<and> read_dbufs demoEnv [0, 1] (demoReader True)
       = Some (Inl E57_ERROR_BUFFERS_NOT_COMPATIBLE, demoReader True)
   \<and> read_dbufs demoEnv [8] (demoReader True)
       = Some (Inl E57_ERROR_BUFFERS_NOT_COMPATIBLE, demoReader True)
   \<and> base (demoBuffer 1) \<noteq> base (demoBuffer 0)
   \<and> setBuffers demoEnv [1] (demoReader True) = (None, (demoReader True)\<lparr> dbufs_' := [1] \<rparr>)
   \<and> read_dbufs demoEnv [1] (demoReader True) = read demoEnv ((demoReader True)\<lparr> dbufs_' := [1] \<rparr>)"
proof -
  have o: "isOpen_' (demoReader True)" "dbufs_' (demoReader True) \<noteq> []"
    by (simp_all add: demoReader_def)
  have cb: "\<And>d. checkBuffers demoEnv (map (sdbHeap (demoReader True)) d) True = None"
    by (simp add: demoEnv_def)
  have l: "length [0::nat, 1] \<noteq> length (dbufs_' (demoReader True))"
    "length [8::nat] = length (dbufs_' (demoReader True))"
    "length [1::nat] = length (dbufs_' (demoReader True))"
    by (simp_all add: demoReader_def)
  have i8: "\<exists>i<length [8::nat]. \<not> compatible (sdbHeap (demoReader True) (dbufs_' (demoReader True) ! i))
       (sdbHeap (demoReader True) ([8] ! i))"
    by (simp add: demoReader_def demoBuffer_def compatible_def)
  have c1: "\<forall>i<length [1::nat]. compatible (sdbHeap (demoReader True) (dbufs_' (demoReader True) ! i))
       (sdbHeap (demoReader True) ([1] ! i))"
    by (simp add: demoReader_def demoBuffer_def compatible_def)
  have b: "base (demoBuffer 1) \<noteq> base (demoBuffer 0)"
    by (simp add: demoBuffer_def)
  from read_dbufs_rebind [OF o, of demoEnv "[0, 1]"] cb l(1)
  have A: "read_dbufs demoEnv [0, 1] (demoReader True)
       = Some (Inl E57_ERROR_BUFFERS_NOT_COMPATIBLE, demoReader True)" by blast
  from read_dbufs_rebind [OF o, of demoEnv "[8]"] cb l(2) i8
  have B: "read_dbufs demoEnv [8] (demoReader True)
       = Some (Inl E57_ERROR_BUFFERS_NOT_COMPATIBLE, demoReader True)" by blast
  from read_dbufs_rebind [OF o, of demoEnv "[1]"] cb l(3) c1
  have C: "setBuffers demoEnv [1] (demoReader True) = (None, (demoReader True)\<lparr> dbufs_' := [1] \<rparr>)
   \<and> read_dbufs demoEnv [1] (demoReader True) = read demoEnv ((demoReader True)\<lparr> dbufs_' := [1] \<rparr>)"
    by blast
  from o A B C b show ?thesis by blast
qed

section \<open>Properties of the selection of the earliest packet\<close>

lemma Min_insert_min:
  fixes a acc :: "'a :: linorder"
  assumes "finite R"
  shows "Min (insert (min a acc) R) = Min (insert acc (insert a R))"
proof (cases "R = {}")
  case True
  then show ?thesis by (simp add: min.commute)
next
  case False
  with assms have "Min (insert (min a acc) R) = min (min a acc) (Min R)"
    by (rule Min_insert)
  moreover from assms False have "Min (insert a R) = min a (Min R)"
    by (rule Min_insert)
  moreover from assms have "Min (insert acc (insert a R)) = min acc (Min (insert a R))"
    by (intro Min_insert) simp_all
  ultimately show ?thesis
    by (simp only: min.assoc min.left_commute [of acc])
qed

lemma earliest_foldl:
  fixes f :: "u64 \<Rightarrow> 'c \<Rightarrow> u64"
  assumes f: "\<And>e c. f e c = (if P c then (if off c < e then off c else e) else e)"
  shows "foldl f acc cs = Min (insert acc (off ` {c \<in> set cs. P c}))"
proof (induction cs arbitrary: acc)
  case Nil
  show ?case by simp
next
  case (Cons c cs)
  let ?R = "off ` {c \<in> set cs. P c}"
  have fin: "finite ?R" by simp
  show ?case
  proof (cases "P c")
    case False
    then have "{x \<in> set (c # cs). P x} = {x \<in> set cs. P x}" by auto
    with False Cons.IH [of acc] show ?thesis by (simp add: f)
  next
    case True
    then have set: "{x \<in> set (c # cs). P x} = insert c {x \<in> set cs. P x}" by auto
    have fm: "f acc c = min (off c) acc"
    proof -
      have "f acc c = (if off c < acc then off c else acc)"
        using True by (simp only: f if_True)
      also have "\<dots> = min (off c) acc"
        by (auto simp: min_def)
      finally show ?thesis .
    qed
    have "foldl f acc (c # cs) = foldl f (f acc c) cs" by simp
    also have "\<dots> = Min (insert (min (off c) acc) ?R)"
      by (simp only: Cons.IH fm)
    also have "\<dots> = Min (insert acc (insert (off c) ?R))"
      using fin by (rule Min_insert_min)
    finally show ?thesis by (simp only: set image_insert)
  qed
qed

lemma earliest_Min:
  "earliestPacketNeededForInput env s =
     Min (insert E57_UINT64_MAX
        (currentPacketLogicalOffset ` {c \<in> set (channels_' s). needsInput env s c}))"
  unfolding earliestPacketNeededForInput_def
  by (rule earliest_foldl) (simp add: needsInput_def)


lemma pullLoop_exit:
  "earliestPacketNeededForInput env s = E57_UINT64_MAX \<Longrightarrow> pullLoop env s = Some (None, s)"
  by (subst pullLoop.simps) simp

lemma pullLoop_step:
  "earliestPacketNeededForInput env s \<noteq> E57_UINT64_MAX \<Longrightarrow>
   pullLoop env s =
     Option.bind (feedPacketToDecoders env (earliestPacketNeededForInput env s) s)
       (\<lambda>r. case r of (Some e, s1) \<Rightarrow> Some (Some e, s1) | (None, s1) \<Rightarrow> pullLoop env s1)"
  by (subst pullLoop.simps) (simp add: Let_def)

text \<open>Claim C4.  The offset that \<^verbatim>\<open>earliestPacketNeededForInput\<close> returns is the minimum of
  the sentinel and of the \<open>currentPacketLogicalOffset\<close> of the channels that are neither
  output-blocked nor \<open>inputFinished\<close>.  When there is no such channel it is the sentinel and
  the loop of \<^verbatim>\<open>read\<close> exits with the state as it is.  When it is not the sentinel, it is the
  offset of such a channel, no such channel has a smaller one, and the loop feeds the packet
  at that offset to the decoders and goes on from the state this leaves (or stops with the
  exception thrown).\<close>

theorem earliest_packet_selection:
  "earliestPacketNeededForInput env s =
     Min (insert E57_UINT64_MAX
        (currentPacketLogicalOffset ` {c \<in> set (channels_' s). needsInput env s c}))
   \<and> ((\<forall>c\<in>set (channels_' s). \<not> needsInput env s c) \<longrightarrow>
        earliestPacketNeededForInput env s = E57_UINT64_MAX)
   \<and> (earliestPacketNeededForInput env s = E57_UINT64_MAX \<longrightarrow> pullLoop env s = Some (None, s))
   \<and> (earliestPacketNeededForInput env s \<noteq> E57_UINT64_MAX \<longrightarrow>
        (\<exists>c\<in>set (channels_' s). needsInput env s c
            \<and> currentPacketLogicalOffset c = earliestPacketNeededForInput env s)
        \<and> (\<forall>c\<in>set (channels_' s). needsInput env s c \<longrightarrow>
              earliestPacketNeededForInput env s \<le> currentPacketLogicalOffset c)
        \<and> pullLoop env s =
            Option.bind (feedPacketToDecoders env (earliestPacketNeededForInput env s) s)
              (\<lambda>r. case r of (Some e, s1) \<Rightarrow> Some (Some e, s1)
                             | (None, s1) \<Rightarrow> pullLoop env s1))"
proof -
  let ?e = "earliestPacketNeededForInput env s"
  let ?S = "currentPacketLogicalOffset ` {c \<in> set (channels_' s). needsInput env s c}"
  have fin: "finite (insert E57_UINT64_MAX ?S)" by simp
  have m: "?e = Min (insert E57_UINT64_MAX ?S)" by (rule earliest_Min)
  have none: "(\<forall>c\<in>set (channels_' s). \<not> needsInput env s c) \<longrightarrow> ?e = E57_UINT64_MAX"
  proof
    assume "\<forall>c\<in>set (channels_' s). \<not> needsInput env s c"
    then have "?S = {}" by auto
    with m show "?e = E57_UINT64_MAX" by simp
  qed
  have some: "?e \<noteq> E57_UINT64_MAX \<longrightarrow>
        (\<exists>c\<in>set (channels_' s). needsInput env s c \<and> currentPacketLogicalOffset c = ?e)
        \<and> (\<forall>c\<in>set (channels_' s). needsInput env s c \<longrightarrow> ?e \<le> currentPacketLogicalOffset c)"
  proof (intro impI conjI ballI)
    assume ne: "?e \<noteq> E57_UINT64_MAX"
    have "Min (insert E57_UINT64_MAX ?S) \<in> insert E57_UINT64_MAX ?S"
      using fin by (rule Min_in) simp
    with m ne have "?e \<in> ?S" by simp
    then show "\<exists>c\<in>set (channels_' s). needsInput env s c \<and> currentPacketLogicalOffset c = ?e"
      by auto
  next
    fix c assume "c \<in> set (channels_' s)" "needsInput env s c"
    then have "currentPacketLogicalOffset c \<in> insert E57_UINT64_MAX ?S" by auto
    with fin have "Min (insert E57_UINT64_MAX ?S) \<le> currentPacketLogicalOffset c"
      by (rule Min_le)
    with m show "?e \<le> currentPacketLogicalOffset c" by simp
  qed
  from m none some pullLoop_exit [of env s] pullLoop_step [of env s]
  show ?thesis by blast
qed

theorem earliest_packet_selection_witness:
  "earliestPacketNeededForInput demoEnv (demoReader True) = 16
   \<and> needsInput demoEnv (demoReader True) demoChannel
   \<and> pullLoop demoEnv (demoReader True) =
        Option.bind (feedPacketToDecoders demoEnv 16 (demoReader True))
          (\<lambda>r. case r of (Some e, s1) \<Rightarrow> Some (Some e, s1) | (None, s1) \<Rightarrow> pullLoop demoEnv s1)
   \<and> pullLoop demoEnv ((demoReader True)\<lparr> channels_' := [demoChannel\<lparr> inputFinished := True \<rparr>] \<rparr>)
        = Some (None, (demoReader True)\<lparr> channels_' := [demoChannel\<lparr> inputFinished := True \<rparr>] \<rparr>)"
proof -
  have e: "earliestPacketNeededForInput demoEnv (demoReader True) = 16"
    by (simp add: earliestPacketNeededForInput_def demoReader_def demoEnv_def demoChannel_def
        demoBuffer_def E57_UINT64_MAX_def)
  have n: "needsInput demoEnv (demoReader True) demoChannel"
    by (simp add: needsInput_def demoReader_def demoEnv_def demoChannel_def demoBuffer_def)
  have ne: "(16 :: u64) \<noteq> E57_UINT64_MAX" by (simp add: E57_UINT64_MAX_def)
  have f: "\<forall>c\<in>set (channels_' ((demoReader True)\<lparr> channels_' := [demoChannel\<lparr> inputFinished := True \<rparr>] \<rparr>)).
        \<not> needsInput demoEnv ((demoReader True)\<lparr> channels_' := [demoChannel\<lparr> inputFinished := True \<rparr>] \<rparr>) c"
    by (simp add: needsInput_def)
  from earliest_packet_selection [of demoEnv "demoReader True"] e ne
  have A: "pullLoop demoEnv (demoReader True) =
        Option.bind (feedPacketToDecoders demoEnv 16 (demoReader True))
          (\<lambda>r. case r of (Some e, s1) \<Rightarrow> Some (Some e, s1) | (None, s1) \<Rightarrow> pullLoop demoEnv s1)"
    by simp
  from earliest_packet_selection
    [of demoEnv "(demoReader True)\<lparr> channels_' := [demoChannel\<lparr> inputFinished := True \<rparr>] \<rparr>"] f
  have B: "pullLoop demoEnv ((demoReader True)\<lparr> channels_' := [demoChannel\<lparr> inputFinished := True \<rparr>] \<rparr>)
        = Some (None, (demoReader True)\<lparr> channels_' := [demoChannel\<lparr> inputFinished := True \<rparr>] \<rparr>)"
    by blast
  from e n A B show ?thesis by blast
qed

section \<open>Properties of feedPacketToDecoders\<close>

lemma forM_invariant:
  assumes "P s"
    and "\<And>i s r s'. i \<in> set is \<Longrightarrow> P s \<Longrightarrow> body i s = (r, s') \<Longrightarrow> P s'"
  shows "P (snd (forM is body s))"
  using assms
proof (induction "is" arbitrary: s)
  case Nil
  then show ?case by simp
next
  case (Cons i "is")
  obtain r s' where b: "body i s = (r, s')" by (cases "body i s")
  from Cons.prems(2) [OF _ Cons.prems(1) b] have P': "P s'" by simp
  show ?case
  proof (cases r)
    case None
    have "P (snd (forM is body s'))"
      by (rule Cons.IH [OF P']) (rule Cons.prems(2), simp_all)
    with None b show ?thesis by simp
  next
    case (Some e)
    with b P' show ?thesis by simp
  qed
qed

lemma map_update_same: "(map f xs)[i := f (xs ! i)] = map f xs"
  by (cases "i < length xs") (simp_all add: list_update_same_conv list_update_beyond not_less)

text \<open>What one iteration of the first loop keeps (the packet offset, the slice length and
  the \<open>inputFinished\<close> flag of every channel, and the section end) and what it does to the two
  locals.\<close>

lemma feedChannel_frame:
  assumes "feedChannel env cur dpkt i (s, a, n) = (r, (s', a', n'))"
  shows "map currentPacketLogicalOffset (channels_' s') = map currentPacketLogicalOffset (channels_' s)
       \<and> map currentBytestreamBufferLength (channels_' s') = map currentBytestreamBufferLength (channels_' s)
       \<and> map inputFinished (channels_' s') = map inputFinished (channels_' s)
       \<and> sectionEndLogicalOffset_' s' = sectionEndLogicalOffset_' s
       \<and> ((a' = a \<and> n' = n) \<or> (a' \<and> n' = offsetAfter cur dpkt))"
  using assms
  by (auto simp: feedChannel_def Let_def map_update map_update_same
      split: if_splits sum.splits prod.splits)


lemma feedLoop_frame:
  assumes "forM is (feedChannel env cur dpkt) (s, False, E57_UINT64_MAX) = (r, (s1, a1, n1))"
  shows "map currentPacketLogicalOffset (channels_' s1) = map currentPacketLogicalOffset (channels_' s)
       \<and> map currentBytestreamBufferLength (channels_' s1) = map currentBytestreamBufferLength (channels_' s)
       \<and> map inputFinished (channels_' s1) = map inputFinished (channels_' s)
       \<and> sectionEndLogicalOffset_' s1 = sectionEndLogicalOffset_' s
       \<and> n1 = (if a1 then offsetAfter cur dpkt else E57_UINT64_MAX)"
proof -
  let ?P = "\<lambda>st. case st of (s', a', n') \<Rightarrow>
       map currentPacketLogicalOffset (channels_' s') = map currentPacketLogicalOffset (channels_' s)
       \<and> map currentBytestreamBufferLength (channels_' s') = map currentBytestreamBufferLength (channels_' s)
       \<and> map inputFinished (channels_' s') = map inputFinished (channels_' s)
       \<and> sectionEndLogicalOffset_' s' = sectionEndLogicalOffset_' s
       \<and> n' = (if a' then offsetAfter cur dpkt else E57_UINT64_MAX)"
  have "?P (snd (forM is (feedChannel env cur dpkt) (s, False, E57_UINT64_MAX)))"
  proof (rule forM_invariant)
    show "?P (s, False, E57_UINT64_MAX)" by simp
  next
    fix i st r st'
    assume P: "?P st" and b: "feedChannel env cur dpkt i st = (r, st')"
    obtain s' a' n' where st: "st = (s', a', n')" by (cases st)
    obtain s'' a'' n'' where st': "st' = (s'', a'', n'')" by (cases st')
    from feedChannel_frame [OF b [unfolded st st']] P [unfolded st]
    show "?P st'" unfolding st' by auto
  qed
  with assms show ?thesis by simp
qed

text \<open>Claim C10.  When the packet at the current offset is a data packet and the first loop
  of \<^verbatim>\<open>feedPacketToDecoders\<close> ends with \<^verbatim>\<open>anyChannelHasExhaustedPacket\<close> false (no channel it fed
  was input-blocked after its feed), the function returns normally with the state the loop
  left.  In that state every channel has its \<open>currentPacketLogicalOffset\<close>, its
  \<open>currentBytestreamBufferLength\<close> and its \<open>inputFinished\<close> flag as before the call.  The local
  \<^verbatim>\<open>nextPacketLogicalOffset\<close> is still the sentinel, and the call of \<^verbatim>\<open>findNextDataPacket\<close> on it
  returns the sentinel at once, whatever the cache and the section end.\<close>

theorem feed_without_exhaustion:
  assumes "lock env cur = Inr dpkt"
    and "packetType (header dpkt) = DATA_PACKET"
    and "forM [0..<length (channels_' s)] (feedChannel env cur dpkt) (s, False, E57_UINT64_MAX)
           = (None, (s1, False, nxt))"
  shows "feedPacketToDecoders env cur s = Some (None, s1)
       \<and> map currentPacketLogicalOffset (channels_' s1) = map currentPacketLogicalOffset (channels_' s)
       \<and> map currentBytestreamBufferLength (channels_' s1) = map currentBytestreamBufferLength (channels_' s)
       \<and> map inputFinished (channels_' s1) = map inputFinished (channels_' s)
       \<and> nxt = E57_UINT64_MAX
       \<and> findNextDataPacket (lock env) (sectionEndLogicalOffset_' s1) nxt = Some (Inr E57_UINT64_MAX)"
proof -
  from feedLoop_frame [OF assms(3)]
  have fr: "map currentPacketLogicalOffset (channels_' s1) = map currentPacketLogicalOffset (channels_' s)"
    "map currentBytestreamBufferLength (channels_' s1) = map currentBytestreamBufferLength (channels_' s)"
    "map inputFinished (channels_' s1) = map inputFinished (channels_' s)"
    and n: "nxt = E57_UINT64_MAX"
    by simp_all
  have "\<not> E57_UINT64_MAX < sectionEndLogicalOffset_' s1"
    by (simp add: E57_UINT64_MAX_def word_order.extremum_strict)
  then have f: "findNextDataPacket (lock env) (sectionEndLogicalOffset_' s1) E57_UINT64_MAX
      = Some (Inr E57_UINT64_MAX)"
    by (simp add: findNextDataPacket.simps)
  have "feedPacketToDecoders env cur s = Some (None, s1)"
    using assms f n by (simp add: feedPacketToDecoders_def)
  with fr n f show ?thesis by simp
qed

theorem feed_without_exhaustion_witness:
  "lock demoEnv 16 = Inr dataPacket16
   \<and> packetType (header dataPacket16) = DATA_PACKET
   \<and> feedPacketToDecoders demoEnv 16 (demoReader True)
       = Some (None, (demoReader True)
            \<lparr> sdbHeap := demoBuffer(0 := (demoBuffer 0)\<lparr> nextIndex := 2 \<rparr>),
              channels_' := [demoChannel\<lparr> currentBytestreamBufferIndex := 2 \<rparr>] \<rparr>)
   \<and> map currentPacketLogicalOffset [demoChannel\<lparr> currentBytestreamBufferIndex := 2 \<rparr>]
       = map currentPacketLogicalOffset (channels_' (demoReader True))"
proof -
  have l: "lock demoEnv 16 = Inr dataPacket16"
    by (simp add: demoEnv_def smallCache_def)
  have d: "packetType (header dataPacket16) = DATA_PACKET"
    by (simp add: dataPacket16_def)
  have loop: "forM [0..<length (channels_' (demoReader True))] (feedChannel demoEnv 16 dataPacket16)
           (demoReader True, False, E57_UINT64_MAX)
         = (None, ((demoReader True)
            \<lparr> sdbHeap := demoBuffer(0 := (demoBuffer 0)\<lparr> nextIndex := 2 \<rparr>),
              channels_' := [demoChannel\<lparr> currentBytestreamBufferIndex := 2 \<rparr>] \<rparr>, False, E57_UINT64_MAX))"
    by (simp add: demoReader_def feedChannel_def alreadyReadPacket_def demoEnv_def demoChannel_def
        demoBuffer_def getBytestream_def dataPacket16_def byteDecoder_def Let_def
        numeral_2_eq_2)
  from feed_without_exhaustion [OF l d loop] l d
  show ?thesis by (simp add: demoReader_def)
qed

section \<open>Monotone packet offsets\<close>


lemma offsetsNotDecreased_refl: "offsetsNotDecreased s s"
  by (simp add: offsetsNotDecreased_def)

lemma offsetsNotDecreased_trans:
  "offsetsNotDecreased s s1 \<Longrightarrow> offsetsNotDecreased s1 s2 \<Longrightarrow> offsetsNotDecreased s s2"
proof -
  assume a: "offsetsNotDecreased s s1" and b: "offsetsNotDecreased s1 s2"
  from a b have len: "length (channels_' s2) = length (channels_' s)"
    by (simp add: offsetsNotDecreased_def)
  have "currentPacketLogicalOffset (channels_' s ! j) \<le> currentPacketLogicalOffset (channels_' s2 ! j)"
    if j: "j < length (channels_' s)" for j
  proof -
    from a j have 1: "currentPacketLogicalOffset (channels_' s ! j)
        \<le> currentPacketLogicalOffset (channels_' s1 ! j)"
      by (simp add: offsetsNotDecreased_def)
    from a j have "j < length (channels_' s1)" by (simp add: offsetsNotDecreased_def)
    with b have 2: "currentPacketLogicalOffset (channels_' s1 ! j)
        \<le> currentPacketLogicalOffset (channels_' s2 ! j)"
      by (simp add: offsetsNotDecreased_def)
    from 1 2 show ?thesis by (rule order_trans)
  qed
  with len show ?thesis by (simp add: offsetsNotDecreased_def)
qed

lemma same_offsets_notDecreased:
  assumes "map currentPacketLogicalOffset (channels_' s1) = map currentPacketLogicalOffset (channels_' s)"
  shows "offsetsNotDecreased s s1"
proof -
  from assms have len: "length (channels_' s1) = length (channels_' s)"
    by (rule map_eq_imp_length_eq)
  have "currentPacketLogicalOffset (channels_' s ! j) = currentPacketLogicalOffset (channels_' s1 ! j)"
    if "j < length (channels_' s)" for j
  proof -
    from that len have "map currentPacketLogicalOffset (channels_' s1) ! j
        = currentPacketLogicalOffset (channels_' s1 ! j)" by simp
    moreover from that have "map currentPacketLogicalOffset (channels_' s) ! j
        = currentPacketLogicalOffset (channels_' s ! j)" by simp
    ultimately show ?thesis using assms by simp
  qed
  with len show ?thesis by (simp add: offsetsNotDecreased_def)
qed

lemma advanceChannel_step:
  assumes "advanceChannel env cur nxt dpkt i s = (r, s')" and "cur \<le> nxt"
  shows "offsetsNotDecreased s s'"
proof (cases "alreadyReadPacket env s (channels_' s ! i) cur")
  case True
  with assms(1) have "s' = s" by (simp add: advanceChannel_def Let_def)
  then show ?thesis by (simp add: offsetsNotDecreased_refl)
next
  case False
  then have cur: "currentPacketLogicalOffset (channels_' s ! i) = cur"
    by (simp add: alreadyReadPacket_def)
  let ?c1 = "(channels_' s ! i)\<lparr> currentPacketLogicalOffset := nxt, currentBytestreamBufferIndex := 0 \<rparr>"
  have "\<exists>c. channels_' s' = (channels_' s)[i := c] \<and> currentPacketLogicalOffset c = nxt"
  proof (cases "getBytestreamBufferLength dpkt (bytestreamNumber ?c1)")
    case (Inl e)
    with False assms(1) have "channels_' s' = (channels_' s)[i := ?c1]"
      by (auto simp: advanceChannel_def Let_def)
    then show ?thesis by (intro exI [of _ ?c1]) simp
  next
    case (Inr n)
    with False assms(1)
    have "channels_' s' = (channels_' s)[i := ?c1\<lparr> currentBytestreamBufferLength := n \<rparr>]"
      by (auto simp: advanceChannel_def Let_def)
    then show ?thesis by (intro exI [of _ "?c1\<lparr> currentBytestreamBufferLength := n \<rparr>"]) simp
  qed
  then obtain c where
    s': "channels_' s' = (channels_' s)[i := c]" and c: "currentPacketLogicalOffset c = nxt"
    by blast
  have "currentPacketLogicalOffset (channels_' s ! j) \<le> currentPacketLogicalOffset ((channels_' s)[i := c] ! j)"
    if "j < length (channels_' s)" for j
  proof (cases "j = i")
    case True
    with that have "(channels_' s)[i := c] ! j = c" by simp
    with c have n: "currentPacketLogicalOffset ((channels_' s)[i := c] ! j) = nxt"
      by (simp only:)
    from True cur have "currentPacketLogicalOffset (channels_' s ! j) = cur"
      by (simp only:)
    with n assms(2) show ?thesis by (simp only:)
  next
    case False
    then have "(channels_' s)[i := c] ! j = channels_' s ! j" by simp
    then show ?thesis by (simp only: order_refl)
  qed
  with s' show ?thesis by (simp add: offsetsNotDecreased_def)
qed

lemma advanceLoop_mono:
  assumes "cur \<le> nxt"
  shows "offsetsNotDecreased s1 (snd (forM is (advanceChannel env cur nxt dpkt) s1))"
proof (rule forM_invariant)
  show "offsetsNotDecreased s1 s1" by (rule offsetsNotDecreased_refl)
next
  fix i s r s'
  assume "offsetsNotDecreased s1 s" and "advanceChannel env cur nxt dpkt i s = (r, s')"
  with assms show "offsetsNotDecreased s1 s'"
    by (blast intro: offsetsNotDecreased_trans advanceChannel_step)
qed

lemma finishChannel_step:
  assumes "finishChannel env cur i s = (r, s')"
  shows "offsetsNotDecreased s s'"
proof -
  from assms have "map currentPacketLogicalOffset (channels_' s')
      = map currentPacketLogicalOffset (channels_' s)"
    by (auto simp: finishChannel_def Let_def map_update map_update_same split: if_splits)
  then show ?thesis by (rule same_offsets_notDecreased)
qed

lemma finishLoop_mono:
  "offsetsNotDecreased s1 (snd (forM is (finishChannel env cur) s1))"
proof (rule forM_invariant)
  show "offsetsNotDecreased s1 s1" by (rule offsetsNotDecreased_refl)
next
  fix i s r s'
  assume "offsetsNotDecreased s1 s" and "finishChannel env cur i s = (r, s')"
  then show "offsetsNotDecreased s1 s'"
    by (blast intro: offsetsNotDecreased_trans finishChannel_step)
qed

lemma offsetAfter_ge:
  assumes "packetsDoNotWrap lck" and "lck off = Inr p"
  shows "off \<le> offsetAfter off p"
proof -
  from assms have "unat off + unat (packetLogicalLengthMinus1 (header p)) + 1 < 2 ^ 64"
    by (simp add: packetsDoNotWrap_def)
  then have "unat off \<le> unat (offsetAfter off p)" by (simp add: offsetAfter_unat)
  then show ?thesis by (simp add: word_le_nat_alt)
qed

lemma found_ge_start:
  assumes "packetsDoNotWrap lck"
    and "findNextDataPacket lck sectionEnd a = Some (Inr b)" and "b < E57_UINT64_MAX"
  shows "a \<le> b"
proof -
  from findNextDataPacket_scanResult [OF assms(2)] obtain c where
    sk: "skipsTo lck sectionEnd a c"
    and res: "if c < sectionEnd
       then (case lck c of Inl e \<Rightarrow> Inr b = (Inl e :: ErrorCode + u64)
             | Inr p \<Rightarrow> packetType (header p) = DATA_PACKET \<and> (Inr b :: ErrorCode + u64) = Inr c)
       else (Inr b :: ErrorCode + u64) = Inr E57_UINT64_MAX"
    unfolding scanResult_def by blast
  from res assms(3) have "b = c"
    by (auto split: if_splits sum.splits)
  with skipsTo_le [OF sk assms(1)] show ?thesis by simp
qed

lemma feed_mono:
  assumes nw: "packetsDoNotWrap (lock env)"
    and f: "feedPacketToDecoders env cur s = Some (r, s')"
  shows "offsetsNotDecreased s s'"
proof (cases "lock env cur")
  case (Inl e)
  with f have "s' = s" by (auto simp: feedPacketToDecoders_def)
  then show ?thesis by (simp add: offsetsNotDecreased_refl)
next
  case (Inr dpkt)
  show ?thesis
  proof (cases "packetType (header dpkt) = DATA_PACKET")
    case False
    with f Inr have "s' = s" by (auto simp: feedPacketToDecoders_def)
    then show ?thesis by (simp add: offsetsNotDecreased_refl)
  next
    case data: True
    obtain r1 s1 a n where loop:
      "forM [0..<length (channels_' s)] (feedChannel env cur dpkt) (s, False, E57_UINT64_MAX)
         = (r1, (s1, a, n))"
      by (metis prod.exhaust)
    from feedLoop_frame [OF loop]
    have "map currentPacketLogicalOffset (channels_' s1) = map currentPacketLogicalOffset (channels_' s)"
      and n: "n = (if a then offsetAfter cur dpkt else E57_UINT64_MAX)"
      by simp_all
    then have m1: "offsetsNotDecreased s s1" by (simp add: same_offsets_notDecreased)
    from f Inr data loop have f1:
      "(case r1 of
          Some e \<Rightarrow> Some (Some e, s1)
        | None \<Rightarrow>
          (case findNextDataPacket (lock env) (sectionEndLogicalOffset_' s1) n of
             None \<Rightarrow> None
           | Some (Inl e) \<Rightarrow> Some (Some e, s1)
           | Some (Inr n1) \<Rightarrow>
             if \<not> a then Some (None, s1)
             else if n1 < E57_UINT64_MAX then
               (case lock env n1 of
                  Inl e \<Rightarrow> Some (Some e, s1)
                | Inr dpkt1 \<Rightarrow>
                    Some (forM [0..<length (channels_' s1)] (advanceChannel env cur n1 dpkt1) s1))
             else if n1 \<ge> sectionEndLogicalOffset_' s1 then
               Some (forM [0..<length (channels_' s1)] (finishChannel env cur) s1)
             else Some (None, s1))) = Some (r, s')"
      by (cases r1) (auto simp: feedPacketToDecoders_def)
    show ?thesis
    proof (cases r1)
      case (Some e)
      with f1 have "s' = s1" by auto
      with m1 show ?thesis by simp
    next
      case None
      note r1 = None
      show ?thesis
      proof (cases "findNextDataPacket (lock env) (sectionEndLogicalOffset_' s1) n")
        case None
        with f1 r1 show ?thesis by simp
      next
        case (Some q)
        show ?thesis
        proof (cases q)
          case (Inl e)
          with f1 r1 Some have "s' = s1" by auto
          with m1 show ?thesis by simp
        next
          case (Inr n1)
          note found = Some [unfolded Inr]
          show ?thesis
          proof (cases a)
            case False
            with f1 r1 found have "s' = s1" by auto
            with m1 show ?thesis by simp
          next
            case a: True
            with n have n': "n = offsetAfter cur dpkt" by simp
            show ?thesis
            proof (cases "n1 < E57_UINT64_MAX")
              case lt: True
              show ?thesis
              proof (cases "lock env n1")
                case (Inl e)
                with f1 r1 found a lt have "s' = s1" by auto
                with m1 show ?thesis by simp
              next
                case (Inr dpkt1)
                with f1 r1 found a lt
                have s': "s' = snd (forM [0..<length (channels_' s1)] (advanceChannel env cur n1 dpkt1) s1)"
                  by (auto simp: snd_def split: prod.splits)
                from nw \<open>lock env cur = Inr dpkt\<close> have "cur \<le> n" unfolding n'
                  by (rule offsetAfter_ge)
                also from nw found lt have "n \<le> n1" by (rule found_ge_start)
                finally have "cur \<le> n1" .
                then have "offsetsNotDecreased s1 s'" unfolding s' by (rule advanceLoop_mono)
                with m1 show ?thesis by (rule offsetsNotDecreased_trans)
              qed
            next
              case nlt: False
              show ?thesis
              proof (cases "n1 \<ge> sectionEndLogicalOffset_' s1")
                case True
                with f1 r1 found a nlt
                have s': "s' = snd (forM [0..<length (channels_' s1)] (finishChannel env cur) s1)"
                  by (auto simp: snd_def split: prod.splits)
                have "offsetsNotDecreased s1 s'" unfolding s' by (rule finishLoop_mono)
                with m1 show ?thesis by (rule offsetsNotDecreased_trans)
              next
                case False
                with f1 r1 found a nlt have "s' = s1" by auto
                with m1 show ?thesis by simp
              qed
            qed
          qed
        qed
      qed
    qed
  qed
qed


lemma drainChannel_frame:
  assumes "drainChannel env i s = (r, s')"
  shows "map currentPacketLogicalOffset (channels_' s') = map currentPacketLogicalOffset (channels_' s)"
  using assms
  by (auto simp: drainChannel_def Let_def map_update map_update_same split: sum.splits)

lemma drainLoop_mono:
  "offsetsNotDecreased s1 (snd (forM is (drainChannel env) s1))"
proof (rule forM_invariant)
  show "offsetsNotDecreased s1 s1" by (rule offsetsNotDecreased_refl)
next
  fix i s r s'
  assume a: "offsetsNotDecreased s1 s" and b: "drainChannel env i s = (r, s')"
  from drainChannel_frame [OF b] have "offsetsNotDecreased s s'"
    by (rule same_offsets_notDecreased)
  with a show "offsetsNotDecreased s1 s'" by (rule offsetsNotDecreased_trans)
qed

lemma rewindAll_mono: "offsetsNotDecreased s (rewindAll s)"
  by (simp add: rewindAll_def offsetsNotDecreased_def)

lemma pullLoop_mono:
  assumes "pullLoop env s = Some y"
  shows "packetsDoNotWrap (lock env) \<longrightarrow> offsetsNotDecreased s (snd y)"
proof (rule pullLoop.raw_induct
    [where P = "\<lambda>env s y. packetsDoNotWrap (lock env) \<longrightarrow> offsetsNotDecreased s (snd y)",
      OF _ assms])
  fix f :: "'a Env \<Rightarrow> 'a ReaderState \<Rightarrow> (ErrorCode option \<times> 'a ReaderState) option"
    and env s y
  assume IH: "\<And>env s y. f env s = Some y \<Longrightarrow>
      packetsDoNotWrap (lock env) \<longrightarrow> offsetsNotDecreased s (snd y)"
  assume body: "(let earliestPacketLogicalOffset = earliestPacketNeededForInput env s in
      if earliestPacketLogicalOffset = E57_UINT64_MAX then Some (None, s)
      else Option.bind (feedPacketToDecoders env earliestPacketLogicalOffset s)
             (\<lambda>r. case r of (Some e, s1) \<Rightarrow> Some (Some e, s1) | (None, s1) \<Rightarrow> f env s1)) = Some y"
  show "packetsDoNotWrap (lock env) \<longrightarrow> offsetsNotDecreased s (snd y)"
  proof
    assume nw: "packetsDoNotWrap (lock env)"
    show "offsetsNotDecreased s (snd y)"
    proof (cases "earliestPacketNeededForInput env s = E57_UINT64_MAX")
      case True
      with body have "y = (None, s)" by (simp add: Let_def)
      then show ?thesis by (simp add: offsetsNotDecreased_refl)
    next
      case False
      with body obtain r s1 where
        fd: "feedPacketToDecoders env (earliestPacketNeededForInput env s) s = Some (r, s1)"
        and rest: "(case r of Some e \<Rightarrow> Some (Some e, s1) | None \<Rightarrow> f env s1) = Some y"
        by (auto simp: Let_def bind_eq_Some_conv split: prod.splits option.splits)
      from feed_mono [OF nw fd] have m1: "offsetsNotDecreased s s1" .
      show ?thesis
      proof (cases r)
        case (Some e)
        with rest have "snd y = s1" by auto
        with m1 show ?thesis by simp
      next
        case None
        with rest have "f env s1 = Some y" by simp
        from IH [OF this] nw have "offsetsNotDecreased s1 (snd y)" by simp
        with m1 show ?thesis by (rule offsetsNotDecreased_trans)
      qed
    qed
  qed
qed

lemma readPull_mono:
  assumes nw: "packetsDoNotWrap (lock env)" and r: "readPull env s = Some (e, s')"
  shows "offsetsNotDecreased s s'"
proof (cases "isOpen_' s")
  case False
  with r have "s' = s" by (auto simp: readPull_def checkImageFileOpen_def checkReaderOpen_def)
  then show ?thesis by (simp add: offsetsNotDecreased_refl)
next
  case True
  obtain r2 s2 where d: "forM [0..<length (channels_' s)] (drainChannel env) (rewindAll s) = (r2, s2)"
    by (metis prod.exhaust)
  have "offsetsNotDecreased (rewindAll s) (snd (forM [0..<length (channels_' s)] (drainChannel env) (rewindAll s)))"
    by (rule drainLoop_mono)
  with d have "offsetsNotDecreased (rewindAll s) s2" by simp
  with rewindAll_mono have m2: "offsetsNotDecreased s s2" by (rule offsetsNotDecreased_trans)
  show ?thesis
  proof (cases r2)
    case (Some x)
    with r True d have "s' = s2"
      by (auto simp: readPull_def checkImageFileOpen_def checkReaderOpen_def)
    with m2 show ?thesis by simp
  next
    case None
    with r True d have "pullLoop env s2 = Some (e, s')"
      by (auto simp: readPull_def checkImageFileOpen_def checkReaderOpen_def)
    from pullLoop_mono [OF this] nw have "offsetsNotDecreased s2 s'" by simp
    with m2 show ?thesis by (rule offsetsNotDecreased_trans)
  qed
qed

lemma read_mono:
  assumes nw: "packetsDoNotWrap (lock env)" and r: "read env s = Some (q, s')"
  shows "offsetsNotDecreased s s'"
proof -
  from r obtain e where "readPull env s = Some (e, s')"
    by (auto simp: read_def split: option.splits prod.splits)
  with nw show ?thesis by (rule readPull_mono)
qed

section \<open>The example reader, run\<close>

lemma demo_feed_loop:
  "forM [0..<length (channels_' (demoReader b))] (feedChannel demoEnv 16 dataPacket16)
       (demoReader b, False, E57_UINT64_MAX)
     = (None, (demoReaderFed b, False, E57_UINT64_MAX))"
  by (simp add: demoReader_def demoReaderFed_def feedChannel_def alreadyReadPacket_def demoEnv_def
      demoChannel_def demoBuffer_def getBytestream_def dataPacket16_def byteDecoder_def Let_def
      numeral_2_eq_2)

lemma demo_feed: "feedPacketToDecoders demoEnv 16 (demoReader b) = Some (None, demoReaderFed b)"
proof -
  have l: "lock demoEnv 16 = Inr dataPacket16" by (simp add: demoEnv_def smallCache_def)
  have t: "packetType (header dataPacket16) = DATA_PACKET" by (simp add: dataPacket16_def)
  have f: "findNextDataPacket (lock demoEnv) (sectionEndLogicalOffset_' (demoReaderFed b)) E57_UINT64_MAX
      = Some (Inr E57_UINT64_MAX)"
    by (rule findNextDataPacket_past_end) (rule not_less_E57_UINT64_MAX)
  show ?thesis
    by (simp add: feedPacketToDecoders_def l t demo_feed_loop f)
qed

lemma demo_earliest: "earliestPacketNeededForInput demoEnv (demoReader b) = 16"
  by (simp add: earliestPacketNeededForInput_def demoReader_def demoEnv_def demoChannel_def
      demoBuffer_def E57_UINT64_MAX_def)

lemma demo_earliest_fed: "earliestPacketNeededForInput demoEnv (demoReaderFed b) = E57_UINT64_MAX"
  by (simp add: earliestPacketNeededForInput_def demoReader_def demoReaderFed_def demoEnv_def
      demoChannel_def demoBuffer_def)

lemma demo_pullLoop: "pullLoop demoEnv (demoReader b) = Some (None, demoReaderFed b)"
proof -
  have ne: "earliestPacketNeededForInput demoEnv (demoReader b) \<noteq> E57_UINT64_MAX"
    by (simp add: demo_earliest E57_UINT64_MAX_def)
  show ?thesis
    by (simp add: pullLoop_step [OF ne] demo_earliest demo_feed pullLoop_exit [OF demo_earliest_fed])
qed

lemma demo_drain:
  "forM [0..<length (channels_' (demoReader b))] (drainChannel demoEnv) (rewindAll (demoReader b))
     = (None, demoReader b)"
  by (simp add: demoReader_def rewindAll_def rewind_def drainChannel_def demoEnv_def byteDecoder_def
      demoChannel_def demoBuffer_def Let_def fun_eq_iff)

lemma demo_readPull: "readPull demoEnv (demoReader b) = Some (None, demoReaderFed b)"
proof -
  have o: "checkReaderOpen (demoReader b) = None" by (simp add: checkReaderOpen_def demoReader_def)
  show ?thesis by (simp add: readPull_def checkImageFileOpen_def o demo_drain demo_pullLoop)
qed

lemma demo_verify: "verifyCounts (demoReaderFed b) = Inr 2"
  by (simp add: verifyCounts_def verifyChannel_def demoReaderFed_def demoReader_def demoChannel_def
      Let_def)

lemma demo_read: "read demoEnv (demoReader b) = Some (Inr 2, demoReaderFed b)"
  by (simp add: read_def demo_readPull demo_verify)

section \<open>The image file is not checked\<close>

lemma demo_new: "CompressedVectorReaderImpl_new demoEnv [0] (demoStart b) = (None, demoReader b)"
  by (simp add: CompressedVectorReaderImpl_new_def checkImageFileOpen_def Let_def demoStart_def
      demoReader_def demoEnv_def setBuffers_def createChannel_def initChannel_def
      getBytestreamBufferLength_def getBytestream_def smallCache_def dataPacket16_def
      incrReaderCount_def demoBuffer_def demoChannel_def)

text \<open>Claim C2 fails on the code.  \<^verbatim>\<open>checkImageFileOpen\<close> is unimplemented, so no operation
  of the reader throws \<^verbatim>\<open>E57_ERROR_IMAGEFILE_NOT_OPEN\<close>.  On a closed image file, the
  constructor with an empty buffer list throws \<^verbatim>\<open>E57_ERROR_BAD_API_ARGUMENT\<close>, the constructor
  with a buffer succeeds and opens the reader, \<^verbatim>\<open>read()\<close> on that reader returns two records,
  \<^verbatim>\<open>seek\<close> throws \<^verbatim>\<open>E57_ERROR_NOT_IMPLEMENTED\<close> and \<^verbatim>\<open>close\<close> returns normally.\<close>

theorem closed_file_not_detected:
  "imfIsOpen (demoStart False) = False
   \<and> fst (CompressedVectorReaderImpl_new demoEnv [] (demoStart False)) = Some E57_ERROR_BAD_API_ARGUMENT
   \<and> CompressedVectorReaderImpl_new demoEnv [0] (demoStart False) = (None, demoReader False)
   \<and> imfIsOpen (demoReader False) = False
   \<and> read demoEnv (demoReader False) = Some (Inr 2, demoReaderFed False)
   \<and> seek 0 (demoReader False) = (Some E57_ERROR_NOT_IMPLEMENTED, demoReader False)
   \<and> fst (close (demoReader False)) = None"
proof -
  have a: "imfIsOpen (demoStart False) = False" by (simp add: demoStart_def)
  have b: "fst (CompressedVectorReaderImpl_new demoEnv [] (demoStart False))
      = Some E57_ERROR_BAD_API_ARGUMENT"
    by (simp add: CompressedVectorReaderImpl_new_def checkImageFileOpen_def Let_def)
  have c: "imfIsOpen (demoReader False) = False" by (simp add: demoReader_def)
  have d: "seek 0 (demoReader False) = (Some E57_ERROR_NOT_IMPLEMENTED, demoReader False)"
    by (simp add: seek_def checkImageFileOpen_def)
  have e: "fst (close (demoReader False)) = None" by (simp add: close_result)
  from a b demo_new [of False] c demo_read [of False] d e show ?thesis by (intro conjI)
qed

section \<open>The buffers of the channels and the bound list\<close>

lemma sameBinding_refl: "sameBinding s s"
  by (simp add: sameBinding_def)

lemma sameBinding_trans: "sameBinding s s1 \<Longrightarrow> sameBinding s1 s2 \<Longrightarrow> sameBinding s s2"
  by (simp add: sameBinding_def)

lemma feedChannel_binding:
  assumes "feedChannel env cur dpkt i (s, a, n) = (r, (s', a', n'))"
  shows "sameBinding s s'"
  using assms
  by (auto simp: sameBinding_def feedChannel_def Let_def map_update map_update_same
      split: if_splits sum.splits prod.splits)

lemma feedLoop_binding:
  "sameBinding s (fst (snd (forM is (feedChannel env cur dpkt) (s, a, n))))"
proof -
  let ?P = "\<lambda>st. sameBinding s (fst st)"
  show "?P (snd (forM is (feedChannel env cur dpkt) (s, a, n)))"
  proof (rule forM_invariant)
    show "?P (s, a, n)" by (simp add: sameBinding_refl)
  next
    fix i st r st'
    assume P: "?P st" and b: "feedChannel env cur dpkt i st = (r, st')"
    obtain s1 a1 n1 where st: "st = (s1, a1, n1)" by (cases st)
    obtain s2 a2 n2 where st': "st' = (s2, a2, n2)" by (cases st')
    from feedChannel_binding [OF b [unfolded st st']] P [unfolded st]
    show "?P st'" unfolding st' by (auto intro: sameBinding_trans)
  qed
qed

lemma advanceChannel_binding:
  assumes "advanceChannel env cur nxt dpkt i s = (r, s')"
  shows "sameBinding s s'"
  using assms
  by (auto simp: sameBinding_def advanceChannel_def Let_def map_update map_update_same
      split: if_splits sum.splits)

lemma finishChannel_binding:
  assumes "finishChannel env cur i s = (r, s')"
  shows "sameBinding s s'"
  using assms
  by (auto simp: sameBinding_def finishChannel_def Let_def map_update map_update_same
      split: if_splits)

lemma drainChannel_binding:
  assumes "drainChannel env i s = (r, s')"
  shows "sameBinding s s'"
  using assms
  by (auto simp: sameBinding_def drainChannel_def Let_def map_update map_update_same
      split: sum.splits)

lemma loop_binding:
  assumes "\<And>i s r s'. body i s = (r, s') \<Longrightarrow> sameBinding s s'"
  shows "sameBinding s1 (snd (forM is body s1))"
proof (rule forM_invariant)
  show "sameBinding s1 s1" by (rule sameBinding_refl)
next
  fix i s r s'
  assume "sameBinding s1 s" and "body i s = (r, s')"
  with assms show "sameBinding s1 s'" by (blast intro: sameBinding_trans)
qed

lemma feed_result_cases:
  assumes f: "feedPacketToDecoders env cur s = Some (r, s')"
  obtains (same) "s' = s"
  | (fed) dpkt r1 a n where
      "forM [0..<length (channels_' s)] (feedChannel env cur dpkt) (s, False, E57_UINT64_MAX)
         = (r1, (s', a, n))"
  | (advanced) dpkt r1 s1 a n n1 dpkt1 where
      "forM [0..<length (channels_' s)] (feedChannel env cur dpkt) (s, False, E57_UINT64_MAX)
         = (r1, (s1, a, n))"
      "s' = snd (forM [0..<length (channels_' s1)] (advanceChannel env cur n1 dpkt1) s1)"
  | (finished) dpkt r1 s1 a n where
      "forM [0..<length (channels_' s)] (feedChannel env cur dpkt) (s, False, E57_UINT64_MAX)
         = (r1, (s1, a, n))"
      "s' = snd (forM [0..<length (channels_' s1)] (finishChannel env cur) s1)"
proof (cases "lock env cur")
  case (Inl e)
  with f have "s' = s" by (auto simp: feedPacketToDecoders_def)
  then show ?thesis by (rule same)
next
  case (Inr dpkt)
  show ?thesis
  proof (cases "packetType (header dpkt) = DATA_PACKET")
    case False
    with f Inr have "s' = s" by (auto simp: feedPacketToDecoders_def)
    then show ?thesis by (rule same)
  next
    case data: True
    obtain r1 s1 a n where loop:
      "forM [0..<length (channels_' s)] (feedChannel env cur dpkt) (s, False, E57_UINT64_MAX)
         = (r1, (s1, a, n))"
      by (metis prod.exhaust)
    from f Inr data loop have f1:
      "(case r1 of
          Some e \<Rightarrow> Some (Some e, s1)
        | None \<Rightarrow>
          (case findNextDataPacket (lock env) (sectionEndLogicalOffset_' s1) n of
             None \<Rightarrow> None
           | Some (Inl e) \<Rightarrow> Some (Some e, s1)
           | Some (Inr n1) \<Rightarrow>
             if \<not> a then Some (None, s1)
             else if n1 < E57_UINT64_MAX then
               (case lock env n1 of
                  Inl e \<Rightarrow> Some (Some e, s1)
                | Inr dpkt1 \<Rightarrow>
                    Some (forM [0..<length (channels_' s1)] (advanceChannel env cur n1 dpkt1) s1))
             else if n1 \<ge> sectionEndLogicalOffset_' s1 then
               Some (forM [0..<length (channels_' s1)] (finishChannel env cur) s1)
             else Some (None, s1))) = Some (r, s')"
      by (cases r1) (auto simp: feedPacketToDecoders_def)
    have fedI: "s' = s1 \<Longrightarrow> ?thesis"
      using loop by (auto intro: fed)
    show ?thesis
    proof (cases r1)
      case (Some e)
      with f1 have "s' = s1" by auto
      then show ?thesis by (rule fedI)
    next
      case None
      note r1 = None
      show ?thesis
      proof (cases "findNextDataPacket (lock env) (sectionEndLogicalOffset_' s1) n")
        case None
        with f1 r1 show ?thesis by simp
      next
        case (Some q)
        show ?thesis
        proof (cases q)
          case (Inl e)
          with f1 r1 Some have "s' = s1" by auto
          then show ?thesis by (rule fedI)
        next
          case (Inr n1)
          note found = Some [unfolded Inr]
          show ?thesis
          proof (cases a)
            case False
            with f1 r1 found have "s' = s1" by auto
            then show ?thesis by (rule fedI)
          next
            case a: True
            show ?thesis
            proof (cases "n1 < E57_UINT64_MAX")
              case lt: True
              show ?thesis
              proof (cases "lock env n1")
                case (Inl e)
                with f1 r1 found a lt have "s' = s1" by auto
                then show ?thesis by (rule fedI)
              next
                case (Inr dpkt1)
                with f1 r1 found a lt
                have "s' = snd (forM [0..<length (channels_' s1)] (advanceChannel env cur n1 dpkt1) s1)"
                  by (auto simp: snd_def split: prod.splits)
                with loop show ?thesis by (rule advanced)
              qed
            next
              case nlt: False
              show ?thesis
              proof (cases "n1 \<ge> sectionEndLogicalOffset_' s1")
                case True
                with f1 r1 found a nlt
                have "s' = snd (forM [0..<length (channels_' s1)] (finishChannel env cur) s1)"
                  by (auto simp: snd_def split: prod.splits)
                with loop show ?thesis by (rule finished)
              next
                case False
                with f1 r1 found a nlt have "s' = s1" by auto
                then show ?thesis by (rule fedI)
              qed
            qed
          qed
        qed
      qed
    qed
  qed
qed

lemma feed_binding:
  assumes "feedPacketToDecoders env cur s = Some (r, s')"
  shows "sameBinding s s'"
  using assms
proof (cases rule: feed_result_cases)
  case same
  then show ?thesis by (simp add: sameBinding_refl)
next
  case (fed dpkt r1 a n)
  from feedLoop_binding [of s "[0..<length (channels_' s)]" env cur dpkt False E57_UINT64_MAX]
  show ?thesis unfolding fed by simp
next
  case (advanced dpkt r1 s1 a n n1 dpkt1)
  from feedLoop_binding [of s "[0..<length (channels_' s)]" env cur dpkt False E57_UINT64_MAX]
  have 1: "sameBinding s s1" unfolding advanced(1) by simp
  have "sameBinding s1 s'" unfolding advanced(2)
    by (rule loop_binding) (rule advanceChannel_binding)
  with 1 show ?thesis by (rule sameBinding_trans)
next
  case (finished dpkt r1 s1 a n)
  from feedLoop_binding [of s "[0..<length (channels_' s)]" env cur dpkt False E57_UINT64_MAX]
  have 1: "sameBinding s s1" unfolding finished(1) by simp
  have "sameBinding s1 s'" unfolding finished(2)
    by (rule loop_binding) (rule finishChannel_binding)
  with 1 show ?thesis by (rule sameBinding_trans)
qed

lemma pullLoop_binding:
  assumes "pullLoop env s = Some y"
  shows "sameBinding s (snd y)"
proof (rule pullLoop.raw_induct [where P = "\<lambda>env s y. sameBinding s (snd y)", OF _ assms])
  fix f :: "'a Env \<Rightarrow> 'a ReaderState \<Rightarrow> (ErrorCode option \<times> 'a ReaderState) option"
    and env s y
  assume IH: "\<And>env s y. f env s = Some y \<Longrightarrow> sameBinding s (snd y)"
  assume body: "(let earliestPacketLogicalOffset = earliestPacketNeededForInput env s in
      if earliestPacketLogicalOffset = E57_UINT64_MAX then Some (None, s)
      else Option.bind (feedPacketToDecoders env earliestPacketLogicalOffset s)
             (\<lambda>r. case r of (Some e, s1) \<Rightarrow> Some (Some e, s1) | (None, s1) \<Rightarrow> f env s1)) = Some y"
  show "sameBinding s (snd y)"
  proof (cases "earliestPacketNeededForInput env s = E57_UINT64_MAX")
    case True
    with body have "y = (None, s)" by (simp add: Let_def)
    then show ?thesis by (simp add: sameBinding_refl)
  next
    case False
    with body obtain r s1 where
      fd: "feedPacketToDecoders env (earliestPacketNeededForInput env s) s = Some (r, s1)"
      and rest: "(case r of Some e \<Rightarrow> Some (Some e, s1) | None \<Rightarrow> f env s1) = Some y"
      by (auto simp: Let_def bind_eq_Some_conv split: prod.splits option.splits)
    from feed_binding [OF fd] have m1: "sameBinding s s1" .
    show ?thesis
    proof (cases r)
      case (Some e)
      with rest have "snd y = s1" by auto
      with m1 show ?thesis by simp
    next
      case None
      with rest have "f env s1 = Some y" by simp
      from IH [OF this] have "sameBinding s1 (snd y)" .
      with m1 show ?thesis by (rule sameBinding_trans)
    qed
  qed
qed

lemma rewindAll_binding: "sameBinding s (rewindAll s)"
  by (simp add: rewindAll_def sameBinding_def)

lemma readPull_binding:
  assumes r: "readPull env s = Some (e, s')"
  shows "sameBinding s s'"
proof (cases "isOpen_' s")
  case False
  with r have "s' = s" by (auto simp: readPull_def checkImageFileOpen_def checkReaderOpen_def)
  then show ?thesis by (simp add: sameBinding_refl)
next
  case True
  obtain r2 s2 where d: "forM [0..<length (channels_' s)] (drainChannel env) (rewindAll s) = (r2, s2)"
    by (metis prod.exhaust)
  have "sameBinding (rewindAll s) (snd (forM [0..<length (channels_' s)] (drainChannel env) (rewindAll s)))"
    by (rule loop_binding) (rule drainChannel_binding)
  with d have "sameBinding (rewindAll s) s2" by simp
  with rewindAll_binding have m2: "sameBinding s s2" by (rule sameBinding_trans)
  show ?thesis
  proof (cases r2)
    case (Some x)
    with r True d have "s' = s2"
      by (auto simp: readPull_def checkImageFileOpen_def checkReaderOpen_def)
    with m2 show ?thesis by simp
  next
    case None
    with r True d have "pullLoop env s2 = Some (e, s')"
      by (auto simp: readPull_def checkImageFileOpen_def checkReaderOpen_def)
    from pullLoop_binding [OF this] have "sameBinding s2 s'" by simp
    with m2 show ?thesis by (rule sameBinding_trans)
  qed
qed

lemma read_binding:
  assumes "read env s = Some (q, s')"
  shows "sameBinding s s'"
proof -
  from assms obtain e where "readPull env s = Some (e, s')"
    by (auto simp: read_def split: option.splits prod.splits)
  then show ?thesis by (rule readPull_binding)
qed

text \<open>The constructor binds the channels to the buffers of the list it is given, in order.\<close>

lemma createLoop_binding:
  assumes "forM is (createChannel env dbufs) s = (None, s')"
  shows "map dbuf (channels_' s') = map dbuf (channels_' s) @ map (\<lambda>i. dbufs ! i) is
         \<and> dbufs_' s' = dbufs_' s"
  using assms
proof (induction "is" arbitrary: s)
  case Nil
  then show ?case by simp
next
  case (Cons i "is")
  obtain r1 s1 where b: "createChannel env dbufs i s = (r1, s1)" by (cases "createChannel env dbufs i s")
  with Cons.prems have r1: "r1 = None" and rest: "forM is (createChannel env dbufs) s1 = (None, s')"
    by (auto split: option.splits)
  from b r1 have "map dbuf (channels_' s1) = map dbuf (channels_' s) @ [dbufs ! i]
      \<and> dbufs_' s1 = dbufs_' s"
    by (auto simp: createChannel_def split: sum.splits option.splits)
  with Cons.IH [OF rest] show ?case by simp
qed

lemma initChannel_binding:
  assumes "initChannel dpkt off i s = (r, s')"
  shows "sameBinding s s'"
  using assms
  by (auto simp: sameBinding_def initChannel_def Let_def map_update map_update_same
      split: sum.splits)

lemma setBuffers_first:
  assumes "dbufs_' s = []" and "setBuffers env dbufs s = (None, s1)"
  shows "s1 = s\<lparr> dbufs_' := dbufs \<rparr>"
  using assms by (auto simp: setBuffers_def split: option.splits)

lemma new_binding:
  assumes n: "CompressedVectorReaderImpl_new env dbufs s0 = (None, s)"
  shows "dbufs_' s = dbufs \<and> map dbuf (channels_' s) = dbufs \<and> isOpen_' s"
proof -
  let ?s = "s0\<lparr> isOpen_' := False, dbufs_' := [], channels_' := [] \<rparr>"
  from n have ne: "dbufs \<noteq> []"
    by (auto simp: CompressedVectorReaderImpl_new_def Let_def checkImageFileOpen_def)
  obtain r1 s1 where sb: "setBuffers env dbufs ?s = (r1, s1)" by (metis prod.exhaust)
  with n ne have r1: "r1 = None"
    by (cases r1) (auto simp: CompressedVectorReaderImpl_new_def Let_def checkImageFileOpen_def)
  from setBuffers_first [OF _ sb [unfolded r1]] have s1: "s1 = ?s\<lparr> dbufs_' := dbufs \<rparr>" by simp
  obtain r2 s2 where cl: "forM [0..<length (dbufs_' s1)] (createChannel env dbufs) s1 = (r2, s2)"
    by (metis prod.exhaust)
  with n ne sb r1 have r2: "r2 = None"
    by (cases r2) (auto simp: CompressedVectorReaderImpl_new_def Let_def checkImageFileOpen_def)
  from createLoop_binding [OF cl [unfolded r2]] s1
  have b2: "map dbuf (channels_' s2) = dbufs" "dbufs_' s2 = dbufs"
    by (simp_all add: map_nth)
  let ?s3 = "s2\<lparr> recordCount_' := 0, maxRecordCount_' := childCount env, cache_' := True \<rparr>"
  have tail: "dbufs_' s5 = dbufs \<and> map dbuf (channels_' s5) = dbufs"
    if "forM [0..<length (channels_' s2)] (initChannel dpkt off)
          (?s3\<lparr> sectionEndLogicalOffset_' := e \<rparr>) = (r5, s5)"
    for dpkt off e r5 s5
  proof -
    have "sameBinding (?s3\<lparr> sectionEndLogicalOffset_' := e \<rparr>)
      (snd (forM [0..<length (channels_' s2)] (initChannel dpkt off)
          (?s3\<lparr> sectionEndLogicalOffset_' := e \<rparr>)))"
      by (rule loop_binding) (rule initChannel_binding)
    with that b2 show ?thesis by (simp add: sameBinding_def)
  qed
  from n ne sb r1 cl r2 show ?thesis
    by (auto simp: CompressedVectorReaderImpl_new_def Let_def checkImageFileOpen_def
        incrReaderCount_def
        split: if_splits sum.splits option.splits prod.splits dest!: tail)
qed

section \<open>The consistency check of read\<close>

lemma verify_tail:
  assumes "0 \<notin> set is"
  shows "forM is (verifyChannel s) oc =
     (if \<forall>k\<in>set is. nextIndex (sdbHeap s (dbuf (channels_' s ! k))) = oc then None
      else Some E57_ERROR_INTERNAL, oc)"
  using assms
  by (induction "is") (auto simp: verifyChannel_def Let_def)

lemma verifyCounts_eq:
  "verifyCounts s =
     (if channels_' s = [] then Inr 0
      else if \<forall>k<length (channels_' s). nextIndex (sdbHeap s (dbuf (channels_' s ! k)))
                = nextIndex (sdbHeap s (dbuf (channels_' s ! 0)))
      then Inr (nextIndex (sdbHeap s (dbuf (channels_' s ! 0))))
      else Inl E57_ERROR_INTERNAL)"
proof (cases "channels_' s = []")
  case True
  then show ?thesis by (simp add: verifyCounts_def)
next
  case False
  let ?n = "length (channels_' s)"
  let ?c0 = "nextIndex (sdbHeap s (dbuf (channels_' s ! 0)))"
  from False have n: "0 < ?n" by simp
  then have u: "[0..<?n] = 0 # [Suc 0..<?n]" by (simp add: upt_rec)
  have z: "0 \<notin> set [Suc 0..<?n]" by simp
  have "forM [0..<?n] (verifyChannel s) 0 = forM [Suc 0..<?n] (verifyChannel s) ?c0"
    by (subst u) (simp add: verifyChannel_def Let_def)
  also have "\<dots> = (if \<forall>k\<in>set [Suc 0..<?n]. nextIndex (sdbHeap s (dbuf (channels_' s ! k))) = ?c0
        then None else Some E57_ERROR_INTERNAL, ?c0)"
    by (rule verify_tail [OF z])
  finally have f: "forM [0..<?n] (verifyChannel s) 0 =
      (if \<forall>k\<in>set [Suc 0..<?n]. nextIndex (sdbHeap s (dbuf (channels_' s ! k))) = ?c0
        then None else Some E57_ERROR_INTERNAL, ?c0)" .
  have q: "(\<forall>k\<in>set [Suc 0..<?n]. nextIndex (sdbHeap s (dbuf (channels_' s ! k))) = ?c0)
       \<longleftrightarrow> (\<forall>k<?n. nextIndex (sdbHeap s (dbuf (channels_' s ! k))) = ?c0)"
  proof
    assume a: "\<forall>k\<in>set [Suc 0..<?n]. nextIndex (sdbHeap s (dbuf (channels_' s ! k))) = ?c0"
    show "\<forall>k<?n. nextIndex (sdbHeap s (dbuf (channels_' s ! k))) = ?c0"
    proof (intro allI impI)
      fix k assume "k < ?n"
      with a show "nextIndex (sdbHeap s (dbuf (channels_' s ! k))) = ?c0"
        by (cases "k = 0") simp_all
    qed
  next
    assume "\<forall>k<?n. nextIndex (sdbHeap s (dbuf (channels_' s ! k))) = ?c0"
    then show "\<forall>k\<in>set [Suc 0..<?n]. nextIndex (sdbHeap s (dbuf (channels_' s ! k))) = ?c0"
      by simp
  qed
  let ?all = "\<forall>k<?n. nextIndex (sdbHeap s (dbuf (channels_' s ! k))) = ?c0"
  show ?thesis
  proof (cases ?all)
    case True
    have "verifyCounts s = Inr ?c0"
      unfolding verifyCounts_def f q if_P [OF True] by simp
    then show ?thesis
      unfolding if_not_P [OF False] if_P [OF True] .
  next
    case nall: False
    have "verifyCounts s = Inl E57_ERROR_INTERNAL"
      unfolding verifyCounts_def f q if_not_P [OF nall] by simp
    then show ?thesis
      unfolding if_not_P [OF False] if_not_P [OF nall] .
  qed
qed

lemma read_after_pull:
  "readPull env s = Some (None, s1) \<Longrightarrow> read env s = Some (verifyCounts s1, s1)"
  by (simp add: read_def)

lemma read_Inr_pull:
  assumes "read env s = Some (Inr n, s')"
  shows "readPull env s = Some (None, s') \<and> verifyCounts s' = Inr n"
  using assms by (auto simp: read_def split: option.splits prod.splits)

text \<open>What the check gives.  When \<^verbatim>\<open>read()\<close> returns the count \<open>n\<close>, the buffer of every
  channel of the reader (the buffer its decoder is bound to) has its cursor \<open>nextIndex\<close> at
  \<open>n\<close>; when the bound list \<open>dbufs_'\<close> holds the buffers of the channels before the call, it
  still does after the call and every buffer of the bound list has its cursor at \<open>n\<close>.  When
  the loop of \<^verbatim>\<open>read()\<close> ends normally in a state in which the buffers of two channels have
  different cursors, \<^verbatim>\<open>read()\<close> throws \<^verbatim>\<open>E57_ERROR_INTERNAL\<close> in that state.\<close>

lemma read_count_is_channel_cursor:
  "(read env s = Some (Inr n, s') \<longrightarrow>
      (\<forall>c\<in>set (channels_' s'). nextIndex (sdbHeap s' (dbuf c)) = n))
   \<and> (read env s = Some (Inr n, s') \<and> map dbuf (channels_' s) = dbufs_' s \<longrightarrow>
      map dbuf (channels_' s') = dbufs_' s'
      \<and> (\<forall>a\<in>set (dbufs_' s'). nextIndex (sdbHeap s' a) = n))
   \<and> (readPull env s = Some (None, s1) \<and> i < length (channels_' s1) \<and> j < length (channels_' s1)
       \<and> nextIndex (sdbHeap s1 (dbuf (channels_' s1 ! i)))
           \<noteq> nextIndex (sdbHeap s1 (dbuf (channels_' s1 ! j))) \<longrightarrow>
      read env s = Some (Inl E57_ERROR_INTERNAL, s1))"
proof -
  have chan: "nextIndex (sdbHeap s' (dbuf c)) = n"
    if r: "read env s = Some (Inr n, s')" and c: "c \<in> set (channels_' s')" for c
  proof -
    from read_Inr_pull [OF r] have v: "verifyCounts s' = Inr n" by simp
    from c obtain k where k: "k < length (channels_' s')" "channels_' s' ! k = c"
      by (auto simp: in_set_conv_nth)
    from c have ne: "channels_' s' \<noteq> []" by auto
    let ?all = "\<forall>k<length (channels_' s'). nextIndex (sdbHeap s' (dbuf (channels_' s' ! k)))
                  = nextIndex (sdbHeap s' (dbuf (channels_' s' ! 0)))"
    from ne have e: "verifyCounts s' =
        (if ?all then Inr (nextIndex (sdbHeap s' (dbuf (channels_' s' ! 0)))) else Inl E57_ERROR_INTERNAL)"
      by (subst verifyCounts_eq) (simp only: if_False)
    have all: ?all
    proof (rule ccontr)
      assume "\<not> ?all"
      from e [unfolded if_not_P [OF this]] v show False by simp
    qed
    from e [unfolded if_P [OF all]] v have n: "nextIndex (sdbHeap s' (dbuf (channels_' s' ! 0))) = n"
      by simp
    from all k(1) have "nextIndex (sdbHeap s' (dbuf (channels_' s' ! k)))
        = nextIndex (sdbHeap s' (dbuf (channels_' s' ! 0)))" by blast
    with k(2) n show ?thesis by simp
  qed
  have bound: "map dbuf (channels_' s') = dbufs_' s'
      \<and> (\<forall>a\<in>set (dbufs_' s'). nextIndex (sdbHeap s' a) = n)"
    if r: "read env s = Some (Inr n, s')" and b: "map dbuf (channels_' s) = dbufs_' s"
  proof -
    from read_binding [OF r] b have b': "map dbuf (channels_' s') = dbufs_' s'"
      by (simp add: sameBinding_def)
    have "nextIndex (sdbHeap s' a) = n" if "a \<in> set (dbufs_' s')" for a
    proof -
      from that b' have "a \<in> dbuf ` set (channels_' s')" by (metis set_map)
      then obtain c where "c \<in> set (channels_' s')" "a = dbuf c" by blast
      with chan [OF r] show ?thesis by simp
    qed
    with b' show ?thesis by blast
  qed
  have mism: "read env s = Some (Inl E57_ERROR_INTERNAL, s1)"
    if a: "readPull env s = Some (None, s1) \<and> i < length (channels_' s1) \<and> j < length (channels_' s1)
       \<and> nextIndex (sdbHeap s1 (dbuf (channels_' s1 ! i)))
           \<noteq> nextIndex (sdbHeap s1 (dbuf (channels_' s1 ! j)))"
  proof -
    from a have ne: "channels_' s1 \<noteq> []" by auto
    let ?all = "\<forall>k<length (channels_' s1). nextIndex (sdbHeap s1 (dbuf (channels_' s1 ! k)))
                  = nextIndex (sdbHeap s1 (dbuf (channels_' s1 ! 0)))"
    have nall: "\<not> ?all"
    proof
      assume all: ?all
      from a have i: "i < length (channels_' s1)" and j: "j < length (channels_' s1)" by simp_all
      from all i have "nextIndex (sdbHeap s1 (dbuf (channels_' s1 ! i)))
          = nextIndex (sdbHeap s1 (dbuf (channels_' s1 ! 0)))" by blast
      moreover from all j have "nextIndex (sdbHeap s1 (dbuf (channels_' s1 ! j)))
          = nextIndex (sdbHeap s1 (dbuf (channels_' s1 ! 0)))" by blast
      ultimately show False using a by simp
    qed
    from ne have "verifyCounts s1 =
        (if ?all then Inr (nextIndex (sdbHeap s1 (dbuf (channels_' s1 ! 0)))) else Inl E57_ERROR_INTERNAL)"
      by (subst verifyCounts_eq) (simp only: if_False)
    then have "verifyCounts s1 = Inl E57_ERROR_INTERNAL" unfolding if_not_P [OF nall] .
    with a show ?thesis by (simp add: read_after_pull)
  qed
  from chan bound mism show ?thesis by blast
qed

section \<open>Rebinding the buffers\<close>

lemma rebound_setBuffers:
  "setBuffers demoEnv [1] (demoReader True) = (None, demoReaderSet)"
  by (simp add: setBuffers_def demoEnv_def demoReader_def demoReaderSet_def checkCompatible_def
      demoBuffer_def)

lemma rebound_drain:
  "forM [0..<length (channels_' demoReaderSet)] (drainChannel demoEnv)
       (rewindAll demoReaderSet)
     = (None, demoReaderSet)"
  by (simp add: demoReader_def demoReaderSet_def rewindAll_def rewind_def drainChannel_def
      demoEnv_def byteDecoder_def demoChannel_def demoBuffer_def Let_def fun_eq_iff)

lemma rebound_feed_loop:
  "forM [0..<length (channels_' demoReaderSet)]
       (feedChannel demoEnv 16 dataPacket16)
       (demoReaderSet, False, E57_UINT64_MAX)
     = (None, (demoReaderRebound, False, E57_UINT64_MAX))"
  by (simp add: demoReader_def demoReaderSet_def demoReaderFed_def demoReaderRebound_def
      feedChannel_def alreadyReadPacket_def demoEnv_def demoChannel_def demoBuffer_def getBytestream_def
      dataPacket16_def byteDecoder_def Let_def numeral_2_eq_2)

lemma rebound_feed:
  "feedPacketToDecoders demoEnv 16 demoReaderSet
     = Some (None, demoReaderRebound)"
proof -
  have l: "lock demoEnv 16 = Inr dataPacket16" by (simp add: demoEnv_def smallCache_def)
  have t: "packetType (header dataPacket16) = DATA_PACKET" by (simp add: dataPacket16_def)
  have f: "findNextDataPacket (lock demoEnv) (sectionEndLogicalOffset_' demoReaderRebound) E57_UINT64_MAX
      = Some (Inr E57_UINT64_MAX)"
    by (rule findNextDataPacket_past_end) (rule not_less_E57_UINT64_MAX)
  show ?thesis
    by (simp add: feedPacketToDecoders_def l t rebound_feed_loop f)
qed

lemma rebound_earliest:
  "earliestPacketNeededForInput demoEnv demoReaderSet = 16"
  by (simp add: earliestPacketNeededForInput_def demoReader_def demoReaderSet_def demoEnv_def
      demoChannel_def demoBuffer_def E57_UINT64_MAX_def)

lemma rebound_earliest_fed: "earliestPacketNeededForInput demoEnv demoReaderRebound = E57_UINT64_MAX"
  by (simp add: earliestPacketNeededForInput_def demoReader_def demoReaderFed_def
      demoReaderRebound_def demoEnv_def demoChannel_def demoBuffer_def)

lemma rebound_pullLoop:
  "pullLoop demoEnv demoReaderSet = Some (None, demoReaderRebound)"
proof -
  have ne: "earliestPacketNeededForInput demoEnv demoReaderSet
      \<noteq> E57_UINT64_MAX"
    by (simp add: rebound_earliest E57_UINT64_MAX_def)
  show ?thesis
    by (simp add: pullLoop_step [OF ne] rebound_earliest rebound_feed
        pullLoop_exit [OF rebound_earliest_fed])
qed

lemma rebound_verify: "verifyCounts demoReaderRebound = Inr 2"
  by (simp add: verifyCounts_def verifyChannel_def demoReaderRebound_def demoReaderFed_def
      demoReader_def demoChannel_def Let_def)

lemma rebound_read:
  "read demoEnv demoReaderSet = Some (Inr 2, demoReaderRebound)"
proof -
  have o: "checkReaderOpen demoReaderSet = None"
    by (simp add: checkReaderOpen_def demoReader_def demoReaderSet_def)
  have "readPull demoEnv demoReaderSet = Some (None, demoReaderRebound)"
    by (simp add: readPull_def checkImageFileOpen_def o rebound_drain rebound_pullLoop)
  then show ?thesis by (simp add: read_def rebound_verify)
qed

lemma rebound_read_dbufs:
  "read_dbufs demoEnv [1] (demoReader True) = Some (Inr 2, demoReaderRebound)"
proof -
  have o: "checkReaderOpen (demoReader True) = None"
    by (simp add: checkReaderOpen_def demoReader_def)
  show ?thesis
    unfolding read_dbufs_def o rebound_setBuffers by (simp add: rebound_read)
qed

lemma rebound_read_again: "read demoEnv demoReaderRebound = Some (Inr 2, demoReaderRebound)"
proof -
  have o: "checkReaderOpen demoReaderRebound = None"
    by (simp add: checkReaderOpen_def demoReaderRebound_def demoReaderFed_def demoReader_def)
  have d: "forM [0..<length (channels_' demoReaderRebound)] (drainChannel demoEnv)
       (rewindAll demoReaderRebound) = (None, demoReaderRebound)"
    by (simp add: demoReaderRebound_def demoReaderFed_def demoReader_def rewindAll_def rewind_def
        drainChannel_def demoEnv_def byteDecoder_def demoChannel_def demoBuffer_def Let_def
        fun_eq_iff)
  have "readPull demoEnv demoReaderRebound = Some (None, demoReaderRebound)"
    by (simp add: readPull_def checkImageFileOpen_def o d pullLoop_exit [OF rebound_earliest_fed])
  then show ?thesis by (simp add: read_def rebound_verify)
qed

text \<open>Claim C3 fails on the code.  \<^verbatim>\<open>setBuffers\<close> replaces the bound list \<open>dbufs_'\<close> but
  not the buffers of the channels and of their decoders, and the count that \<^verbatim>\<open>read()\<close> returns
  is the cursor of the channels' buffers.  The reader is constructed with the buffer of handle
  0; \<^verbatim>\<open>read( dbufs )\<close> with the compatible buffer of handle 1 returns 2, and afterwards the
  bound list holds handle 1, whose buffer has its cursor at 0, while the two records are in
  the buffer of handle 0, which the channel still holds.  Every later \<^verbatim>\<open>read()\<close> returns 2
  again and moves nothing, since it rewinds the buffer of handle 1 only.\<close>

theorem rebind_breaks_equal_rate:
  "CompressedVectorReaderImpl_new demoEnv [0] (demoStart True) = (None, demoReader True)
   \<and> compatible (sdbHeap (demoReader True) 0) (sdbHeap (demoReader True) 1)
   \<and> read_dbufs demoEnv [1] (demoReader True) = Some (Inr 2, demoReaderRebound)
   \<and> dbufs_' demoReaderRebound = [1]
   \<and> nextIndex (sdbHeap demoReaderRebound 1) = 0
   \<and> map dbuf (channels_' demoReaderRebound) = [0]
   \<and> nextIndex (sdbHeap demoReaderRebound 0) = 2
   \<and> read demoEnv demoReaderRebound = Some (Inr 2, demoReaderRebound)"
proof -
  have c: "compatible (sdbHeap (demoReader True) 0) (sdbHeap (demoReader True) 1)"
    by (simp add: compatible_def demoReader_def demoBuffer_def)
  have s: "dbufs_' demoReaderRebound = [1]"
    "nextIndex (sdbHeap demoReaderRebound 1) = 0"
    "map dbuf (channels_' demoReaderRebound) = [0]"
    "nextIndex (sdbHeap demoReaderRebound 0) = 2"
    by (simp_all add: demoReaderRebound_def demoReaderFed_def demoReader_def demoBuffer_def
        demoChannel_def)
  from demo_new [of True] c rebound_read_dbufs s rebound_read_again
  show ?thesis by (intro conjI)
qed

section \<open>A reader over two data packets, run\<close>

lemma big_new: "CompressedVectorReaderImpl_new twoPacketEnv [8] (demoStart True) = (None, bigReader)"
  by (simp add: CompressedVectorReaderImpl_new_def checkImageFileOpen_def Let_def demoStart_def
      bigReader_def twoPacketEnv_def demoEnv_def setBuffers_def createChannel_def initChannel_def
      getBytestreamBufferLength_def getBytestream_def twoPacketCache_def dataPacket16_def
      incrReaderCount_def demoBuffer_def demoChannel_def)

lemma big_lock: "lock twoPacketEnv = twoPacketCache"
  by (simp add: twoPacketEnv_def)

lemma big_packets: "twoPacketCache 16 = Inr dataPacket16" "twoPacketCache 32 = Inr dataPacket16"
  "packetType (header dataPacket16) = DATA_PACKET"
  by (simp_all add: twoPacketCache_def dataPacket16_def)

lemma big_feed_loop:
  "forM [0..<length (channels_' bigReader)] (feedChannel twoPacketEnv 16 dataPacket16)
       (bigReader, False, E57_UINT64_MAX)
     = (None, (bigReader
            \<lparr> sdbHeap := demoBuffer(8 := (demoBuffer 8)\<lparr> nextIndex := 3 \<rparr>),
              channels_' := [demoChannel\<lparr> dbuf := 8, currentBytestreamBufferIndex := 3 \<rparr>] \<rparr>,
          True, 32))"
  by (simp add: bigReader_def feedChannel_def alreadyReadPacket_def twoPacketEnv_def demoEnv_def
      demoChannel_def demoBuffer_def getBytestream_def dataPacket16_def byteDecoder_def Let_def
      offsetAfter_def numeral_3_eq_3)

lemma big_find: "findNextDataPacket twoPacketCache 48 32 = Some (Inr 32)"
  by (simp add: findNextDataPacket.simps twoPacketCache_def dataPacket16_def)

lemma big_feed: "feedPacketToDecoders twoPacketEnv 16 bigReader = Some (None, bigReaderAdvanced)"
proof -
  have m: "(32 :: u64) < E57_UINT64_MAX" by (simp add: E57_UINT64_MAX_def word_less_nat_alt
        unsigned_minus_1_eq_mask mask_eq_exp_minus_1)
  show ?thesis
    unfolding feedPacketToDecoders_def big_lock
    apply (simp only: big_packets sum.case big_feed_loop)
    apply (simp add: bigReader_def big_find m big_packets)
    apply (simp add: advanceChannel_def alreadyReadPacket_def twoPacketEnv_def demoEnv_def Let_def
        demoChannel_def demoBuffer_def getBytestreamBufferLength_def getBytestream_def
        dataPacket16_def bigReaderAdvanced_def bigReader_def)
    done
qed

lemma big_feed_loop2:
  "forM [0..<length (channels_' bigReaderAdvanced)] (feedChannel twoPacketEnv 32 dataPacket16)
       (bigReaderAdvanced, False, E57_UINT64_MAX)
     = (None, (bigReaderRead, False, E57_UINT64_MAX))"
  by (simp add: bigReader_def bigReaderAdvanced_def bigReaderRead_def feedChannel_def
      alreadyReadPacket_def twoPacketEnv_def demoEnv_def demoChannel_def demoBuffer_def
      getBytestream_def dataPacket16_def byteDecoder_def Let_def numeral_2_eq_2 eval_nat_numeral)

lemma big_feed2:
  "feedPacketToDecoders twoPacketEnv 32 bigReaderAdvanced = Some (None, bigReaderRead)"
proof -
  have f: "findNextDataPacket twoPacketCache (sectionEndLogicalOffset_' bigReaderRead) E57_UINT64_MAX
      = Some (Inr E57_UINT64_MAX)"
    by (rule findNextDataPacket_past_end) (rule not_less_E57_UINT64_MAX)
  show ?thesis
    unfolding feedPacketToDecoders_def big_lock
    by (simp only: big_packets sum.case big_feed_loop2) (simp add: f big_packets)
qed

lemma big_earliest: "earliestPacketNeededForInput twoPacketEnv bigReader = 16"
  by (simp add: earliestPacketNeededForInput_def bigReader_def twoPacketEnv_def demoEnv_def
      demoChannel_def demoBuffer_def E57_UINT64_MAX_def)

lemma big_earliest2: "earliestPacketNeededForInput twoPacketEnv bigReaderAdvanced = 32"
  by (simp add: earliestPacketNeededForInput_def bigReader_def bigReaderAdvanced_def
      twoPacketEnv_def demoEnv_def demoChannel_def demoBuffer_def E57_UINT64_MAX_def)

lemma big_earliest3: "earliestPacketNeededForInput twoPacketEnv bigReaderRead = E57_UINT64_MAX"
  by (simp add: earliestPacketNeededForInput_def bigReader_def bigReaderRead_def
      twoPacketEnv_def demoEnv_def demoChannel_def demoBuffer_def)

lemma big_pullLoop: "pullLoop twoPacketEnv bigReader = Some (None, bigReaderRead)"
proof -
  have ne: "earliestPacketNeededForInput twoPacketEnv bigReader \<noteq> E57_UINT64_MAX"
    "earliestPacketNeededForInput twoPacketEnv bigReaderAdvanced \<noteq> E57_UINT64_MAX"
    by (simp_all add: big_earliest big_earliest2 E57_UINT64_MAX_def)
  have "pullLoop twoPacketEnv bigReaderAdvanced = Some (None, bigReaderRead)"
    by (simp add: pullLoop_step [OF ne(2)] big_earliest2 big_feed2 pullLoop_exit [OF big_earliest3])
  then show ?thesis
    by (simp add: pullLoop_step [OF ne(1)] big_earliest big_feed)
qed

lemma big_drain:
  "forM [0..<length (channels_' bigReader)] (drainChannel twoPacketEnv) (rewindAll bigReader)
     = (None, bigReader)"
  by (simp add: bigReader_def rewindAll_def rewind_def drainChannel_def twoPacketEnv_def demoEnv_def
      byteDecoder_def demoChannel_def demoBuffer_def Let_def fun_eq_iff)

lemma big_verify: "verifyCounts bigReaderRead = Inr 5"
  by (simp add: verifyCounts_def verifyChannel_def bigReaderRead_def bigReader_def demoChannel_def
      Let_def)

lemma big_read: "read twoPacketEnv bigReader = Some (Inr 5, bigReaderRead)"
proof -
  have o: "checkReaderOpen bigReader = None" by (simp add: checkReaderOpen_def bigReader_def)
  have "readPull twoPacketEnv bigReader = Some (None, bigReaderRead)"
    by (simp add: readPull_def checkImageFileOpen_def o big_drain big_pullLoop)
  then show ?thesis by (simp add: read_def big_verify)
qed

section \<open>Packet offsets over a whole read\<close>

lemma twoPacketCache_fileBacked: "fileBacked 33 twoPacketCache"
  by (auto simp: fileBacked_def twoPacketCache_def)


text \<open>Claim C6.  The packet cache reads from a file, so no packet that it serves extends
  to or past offset \<open>2 ^ 64\<close>.  For such a cache, a call of \<^verbatim>\<open>feedPacketToDecoders\<close> that
  returns or throws leaves every channel with a \<open>currentPacketLogicalOffset\<close> at least as
  large as before, and keeps the number of channels; so does a whole call of \<^verbatim>\<open>read()\<close>,
  which changes the offsets only through \<^verbatim>\<open>feedPacketToDecoders\<close>.\<close>

theorem offsets_monotone:
  assumes "packetsDoNotWrap (lock env)"
  shows "(feedPacketToDecoders env cur s = Some (r, s') \<longrightarrow> offsetsNotDecreased s s')
       \<and> (read env s = Some (q, s'') \<longrightarrow> offsetsNotDecreased s s'')"
proof (intro conjI impI)
  assume "feedPacketToDecoders env cur s = Some (r, s')"
  with assms show "offsetsNotDecreased s s'" by (rule feed_mono)
next
  assume "read env s = Some (q, s'')"
  with assms show "offsetsNotDecreased s s''" by (rule read_mono)
qed

theorem offsets_monotone_witness:
  "packetsDoNotWrap (lock twoPacketEnv)
   \<and> feedPacketToDecoders twoPacketEnv 16 bigReader = Some (None, bigReaderAdvanced)
   \<and> currentPacketLogicalOffset (channels_' bigReader ! 0) = 16
   \<and> currentPacketLogicalOffset (channels_' bigReaderAdvanced ! 0) = 32
   \<and> offsetsNotDecreased bigReader bigReaderAdvanced
   \<and> read twoPacketEnv bigReader = Some (Inr 5, bigReaderRead)
   \<and> currentPacketLogicalOffset (channels_' bigReaderRead ! 0) = 32
   \<and> offsetsNotDecreased bigReader bigReaderRead"
proof -
  have nw: "packetsDoNotWrap (lock twoPacketEnv)"
    unfolding big_lock by (rule fileBacked_noWrap [OF twoPacketCache_fileBacked]) simp
  note T = offsets_monotone [OF nw, of 16 bigReader None bigReaderAdvanced "Inr 5" bigReaderRead]
  from T [THEN conjunct1, rule_format, OF big_feed]
  have m1: "offsetsNotDecreased bigReader bigReaderAdvanced" .
  from T [THEN conjunct2, rule_format, OF big_read]
  have m2: "offsetsNotDecreased bigReader bigReaderRead" .
  have o: "currentPacketLogicalOffset (channels_' bigReader ! 0) = 16"
    "currentPacketLogicalOffset (channels_' bigReaderAdvanced ! 0) = 32"
    "currentPacketLogicalOffset (channels_' bigReaderRead ! 0) = 32"
    by (simp_all add: bigReader_def bigReaderAdvanced_def bigReaderRead_def demoChannel_def)
  from nw big_feed o(1,2) m1 big_read o(3) m2 show ?thesis by (intro conjI)
qed

end
